theory Spec2Isabelle
  imports Main "HOL-Library.Sublist"
begin

section \<open>Outcomes of a call\<close>

text \<open>
  The tool is Python. A call either returns a value or raises an exception; the three
  exception classes that occur in the modelled code are kept apart, because
  \<^verbatim>\<open>shift_date\<close> catches only one of them. \<open>Unmodelled\<close> marks a
  format string that uses a directive or a character of the \<^verbatim>\<open>datetime\<close>
  library that this development does not describe (locale names, time of day, time
  zones, non-ASCII literals): nothing is stated about such a call.
\<close>

datatype exn = ValueError | OverflowError | ReError

datatype 'a outcome = Returns 'a | Raises exn | Unmodelled

fun bind_outcome :: "'a outcome \<Rightarrow> ('a \<Rightarrow> 'b outcome) \<Rightarrow> 'b outcome" where
  "bind_outcome (Returns x) g = g x"
| "bind_outcome (Raises e) g = Raises e"
| "bind_outcome Unmodelled g = Unmodelled"

section \<open>The calendar of the \<^verbatim>\<open>datetime\<close> module\<close>

text \<open>
  \<^verbatim>\<open>shift_date\<close> delegates the calendar arithmetic to
  \<^verbatim>\<open>datetime.datetime\<close> and \<^verbatim>\<open>datetime.timedelta\<close>. The definitions
  below follow the reference implementation \<^verbatim>\<open>Lib/datetime.py\<close> of CPython:
  Python integers are unbounded (\<open>int\<close>), \<^verbatim>\<open>//\<close> and \<^verbatim>\<open>%\<close> round
  towards minus infinity as \<open>div\<close> and \<open>mod\<close> do, and \<^verbatim>\<open>n >> 5\<close> is
  \<open>n div 32\<close>. For the directives modelled here the time of day of a parsed value is
  always midnight and adding whole days leaves it alone, so a \<^verbatim>\<open>datetime\<close> value
  is represented by its date.
\<close>

record date =
  year :: int
  month :: int
  day :: int

definition MINYEAR :: int where "MINYEAR = 1"
definition MAXYEAR :: int where "MAXYEAR = 9999"
definition MAXORDINAL :: int where "MAXORDINAL = 3652059"

definition DAYS_IN_MONTH :: "int list" where
  "DAYS_IN_MONTH = [-1, 31, 28, 31, 30, 31, 30, 31, 31, 30, 31, 30, 31]"

text \<open>The module builds the table of days before each month with a loop over the
  table of month lengths.\<close>

fun days_before_loop :: "int list \<Rightarrow> int \<Rightarrow> int list \<Rightarrow> int list" where
  "days_before_loop acc dbm [] = acc"
| "days_before_loop acc dbm (dim # rest) = days_before_loop (acc @ [dbm]) (dbm + dim) rest"

definition DAYS_BEFORE_MONTH :: "int list" where
  "DAYS_BEFORE_MONTH = days_before_loop [-1] 0 (tl DAYS_IN_MONTH)"

definition is_leap :: "int \<Rightarrow> bool" where
  "is_leap y \<longleftrightarrow> y mod 4 = 0 \<and> (y mod 100 \<noteq> 0 \<or> y mod 400 = 0)"

definition days_before_year :: "int \<Rightarrow> int" where
  "days_before_year y = (let y1 = y - 1 in y1 * 365 + y1 div 4 - y1 div 100 + y1 div 400)"

text \<open>The two functions below are called with a month in \<open>1..12\<close> only (the source
  asserts it), so the table lookups are in range.\<close>

definition days_in_month :: "int \<Rightarrow> int \<Rightarrow> int" where
  "days_in_month y m = (if m = 2 \<and> is_leap y then 29 else DAYS_IN_MONTH ! nat m)"

definition days_before_month :: "int \<Rightarrow> int \<Rightarrow> int" where
  "days_before_month y m = DAYS_BEFORE_MONTH ! nat m + (if m > 2 \<and> is_leap y then 1 else 0)"

definition ymd2ord :: "int \<Rightarrow> int \<Rightarrow> int \<Rightarrow> int" where
  "ymd2ord y m d = days_before_year y + days_before_month y m + d"

definition DI400Y :: int where "DI400Y = days_before_year 401"
definition DI100Y :: int where "DI100Y = days_before_year 101"
definition DI4Y :: int where "DI4Y = days_before_year 5"

definition ord2ymd :: "int \<Rightarrow> date" where
  "ord2ymd ordinal =
    (let n = ordinal - 1;
         n400 = n div DI400Y; na = n mod DI400Y;
         y0 = n400 * 400 + 1;
         n100 = na div DI100Y; nb = na mod DI100Y;
         n4 = nb div DI4Y; nc = nb mod DI4Y;
         n1 = nc div 365; nd = nc mod 365;
         y = y0 + n100 * 100 + n4 * 4 + n1
     in if n1 = 4 \<or> n100 = 4 then \<lparr>year = y - 1, month = 12, day = 31\<rparr>
        else
          let leapyear = (n1 = 3 \<and> (n4 \<noteq> 24 \<or> n100 = 3));
              m = (nd + 50) div 32;
              preceding = DAYS_BEFORE_MONTH ! nat m + (if m > 2 \<and> leapyear then 1 else 0)
          in if preceding > nd
             then let m' = m - 1;
                      preceding' = preceding
                        - (DAYS_IN_MONTH ! nat m' + (if m' = 2 \<and> leapyear then 1 else 0))
                  in \<lparr>year = y, month = m', day = nd - preceding' + 1\<rparr>
             else \<lparr>year = y, month = m, day = nd - preceding + 1\<rparr>)"

text \<open>The constructor check \<^verbatim>\<open>_check_date_fields\<close>: the conditions under which
  \<^verbatim>\<open>datetime(year, month, day)\<close> does not raise \<^verbatim>\<open>ValueError\<close>.\<close>

definition check_date_fields :: "int \<Rightarrow> int \<Rightarrow> int \<Rightarrow> bool" where
  "check_date_fields y m d \<longleftrightarrow>
     MINYEAR \<le> y \<and> y \<le> MAXYEAR \<and> 1 \<le> m \<and> m \<le> 12 \<and> 1 \<le> d \<and> d \<le> days_in_month y m"

definition toordinal :: "date \<Rightarrow> int" where
  "toordinal dt = ymd2ord (year dt) (month dt) (day dt)"

text \<open>\<^verbatim>\<open>timedelta(days=k)\<close> refuses a day count of magnitude above 999999999.\<close>

definition timedelta :: "int \<Rightarrow> int outcome" where
  "timedelta days = (if \<bar>days\<bar> > 999999999 then Raises OverflowError else Returns days)"

text \<open>\<^verbatim>\<open>datetime.__add__\<close>: the sum is taken on ordinals and must stay inside
  \<open>1..MAXORDINAL\<close>.\<close>

definition datetime_add :: "date \<Rightarrow> int \<Rightarrow> date outcome" where
  "datetime_add dt days =
     (let n = toordinal dt + days
      in if 0 < n \<and> n \<le> MAXORDINAL then Returns (ord2ymd n) else Raises OverflowError)"

section \<open>Characters and numerals\<close>

text \<open>
  Python strings are sequences of Unicode code points; here a string is a list of
  8-bit characters, so the development covers text whose code points are below 256.
  In that range the decimal digits matched by \<^verbatim>\<open>\d\<close> are the ASCII digits and
  the whitespace matched by \<^verbatim>\<open>\s\<close> is the set below.
\<close>

definition digits :: string where "digits = ''0123456789''"
definition nonzero :: string where "nonzero = ''123456789''"

definition is_space :: "char \<Rightarrow> bool" where
  "is_space c \<longleftrightarrow> (of_char c :: nat) \<in> set [9, 10, 11, 12, 13, 28, 29, 30, 31, 32, 133, 160]"

definition lower :: "char \<Rightarrow> char" where
  "lower c = (let n = (of_char c :: nat) in if 65 \<le> n \<and> n \<le> 90 then char_of (n + 32) else c)"

definition digit_val :: "char \<Rightarrow> int" where
  "digit_val c = int (of_char c) - 48"

definition digit_char :: "int \<Rightarrow> char" where
  "digit_char n = char_of (nat (n + 48))"

text \<open>\<^verbatim>\<open>int(s)\<close> on the text of a matched group: leading blanks are ignored, the
  rest is a run of digits.\<close>

definition py_int :: "string \<Rightarrow> int" where
  "py_int s = foldl (\<lambda>a c. 10 * a + digit_val c) 0 (dropWhile is_space s)"

text \<open>Decimal rendering: without padding, and zero-padded to two places.\<close>

fun decimal :: "nat \<Rightarrow> string" where
  "decimal n = (if n < 10 then [digit_char (int n)]
                else decimal (n div 10) @ [digit_char (int (n mod 10))])"

declare decimal.simps [simp del]

definition pad2 :: "int \<Rightarrow> string" where
  "pad2 n = [digit_char (n div 10 mod 10), digit_char (n mod 10)]"

section \<open>Format strings\<close>

text \<open>
  A format string is read left to right. \<^verbatim>\<open>%Y\<close>, \<^verbatim>\<open>%m\<close>, \<^verbatim>\<open>%d\<close>
  and \<^verbatim>\<open>%y\<close> are the directives described here and \<^verbatim>\<open>%%\<close> stands for a
  percent sign. The other directives that the library knows are \<open>Unmodelled\<close>, and so
  are literal characters outside ASCII and the NUL character. A percent sign followed by
  anything else, or by nothing, makes \<^verbatim>\<open>strptime\<close> raise \<^verbatim>\<open>ValueError\<close>
  (``bad directive'', ``stray %'').
\<close>

datatype directive = D_Y | D_m | D_d | D_y

datatype token = Directive directive | Literal char

definition other_directives :: string where
  "other_directives = ''aAbBcfGHIjMpSUuVwWxXzZ''"

fun tokens :: "string \<Rightarrow> token list outcome" where
  "tokens [] = Returns []"
| "tokens (c # rest) =
     (if c = CHR ''%'' then
        (case rest of
           [] \<Rightarrow> Raises ValueError
         | x # rest' \<Rightarrow>
             if x = CHR ''Y'' then bind_outcome (tokens rest') (\<lambda>ts. Returns (Directive D_Y # ts))
             else if x = CHR ''m'' then bind_outcome (tokens rest') (\<lambda>ts. Returns (Directive D_m # ts))
             else if x = CHR ''d'' then bind_outcome (tokens rest') (\<lambda>ts. Returns (Directive D_d # ts))
             else if x = CHR ''y'' then bind_outcome (tokens rest') (\<lambda>ts. Returns (Directive D_y # ts))
             else if x = CHR ''%'' then bind_outcome (tokens rest') (\<lambda>ts. Returns (Literal x # ts))
             else if x \<in> set other_directives then Unmodelled
             else Raises ValueError)
      else if (of_char c :: nat) \<ge> 128 \<or> (of_char c :: nat) = 0 then Unmodelled
      else bind_outcome (tokens rest) (\<lambda>ts. Returns (Literal c # ts)))"

fun directives_of :: "token list \<Rightarrow> directive list" where
  "directives_of [] = []"
| "directives_of (Directive d # ts) = d # directives_of ts"
| "directives_of (Literal c # ts) = directives_of ts"

section \<open>\<^verbatim>\<open>strptime\<close>\<close>

text \<open>
  \<^verbatim>\<open>_strptime\<close> turns the format into a regular expression: every run of
  whitespace becomes \<^verbatim>\<open>\s+\<close>, every directive becomes a named group, every other
  character stands for itself, and the expression is compiled with
  \<^verbatim>\<open>IGNORECASE\<close>. A group is a list of alternatives and an alternative is a list
  of character classes, each written as the string of its members:
  \<^verbatim>\<open>%d\<close> is \<^verbatim>\<open>3[0-1]|[1-2]\d|0[1-9]|[1-9]| [1-9]\<close>,
  \<^verbatim>\<open>%m\<close> is \<^verbatim>\<open>1[0-2]|0[1-9]|[1-9]\<close>,
  \<^verbatim>\<open>%y\<close> is \<^verbatim>\<open>\d\d\<close> and \<^verbatim>\<open>%Y\<close> is \<^verbatim>\<open>\d\d\d\d\<close>.
\<close>

datatype re_item = Group directive | Char char | Spaces

fun directive_regex :: "directive \<Rightarrow> string list list" where
  "directive_regex D_d =
     [[''3'', ''01''], [''12'', digits], [''0'', nonzero], [nonzero], ['' '', nonzero]]"
| "directive_regex D_m = [[''1'', ''012''], [''0'', nonzero], [nonzero]]"
| "directive_regex D_y = [[digits, digits]]"
| "directive_regex D_Y = [[digits, digits, digits, digits]]"

fun re_items :: "token list \<Rightarrow> re_item list" where
  "re_items [] = []"
| "re_items (Directive d # ts) = Group d # re_items ts"
| "re_items (Literal c # ts) = (if is_space c then Spaces else Char c) # re_items ts"

fun merge_spaces :: "re_item list \<Rightarrow> re_item list" where
  "merge_spaces (Spaces # Spaces # r) = merge_spaces (Spaces # r)"
| "merge_spaces (x # r) = x # merge_spaces r"
| "merge_spaces [] = []"

text \<open>A sequence of character classes matches a prefix of the data.\<close>

fun match_classes :: "string list \<Rightarrow> string \<Rightarrow> bool" where
  "match_classes [] s = True"
| "match_classes (cl # cls) [] = False"
| "match_classes (cl # cls) (c # s) = (c \<in> set cl \<and> match_classes cls s)"

text \<open>
  The matcher backtracks. \<open>regex_match\<close> lists every way in which the expression
  matches a prefix of the data, in the order in which the backtracking engine finds
  them: alternatives left to right, \<^verbatim>\<open>\s+\<close> longest first. Each entry is the
  text of the groups, in the order of the groups, and the data left over.
  \<^verbatim>\<open>re.match\<close> returns the first entry.
\<close>

fun regex_match :: "re_item list \<Rightarrow> string \<Rightarrow> ((directive \<times> string) list \<times> string) list" where
  "regex_match [] s = [([], s)]"
| "regex_match (Group d # r) s =
     concat (map (\<lambda>alt.
        if match_classes alt s
        then map (\<lambda>(g, rest). ((d, take (length alt) s) # g, rest))
               (regex_match r (drop (length alt) s))
        else []) (directive_regex d))"
| "regex_match (Char c # r) s =
     (case s of [] \<Rightarrow> [] | x # s' \<Rightarrow> if lower x = lower c then regex_match r s' else [])"
| "regex_match (Spaces # r) s =
     concat (map (\<lambda>k. regex_match r (drop k s)) (rev [1 ..< Suc (length (takeWhile is_space s))]))"

text \<open>The loop over the groups that were found: a later year directive overrides an
  earlier one, and a two-digit year up to 68 is in the century 2000.\<close>

fun assign_group :: "directive \<times> string \<Rightarrow> int option \<times> int \<times> int \<Rightarrow> int option \<times> int \<times> int" where
  "assign_group (D_y, txt) (y, m, d) =
     (let v = py_int txt in (Some (if v \<le> 68 then v + 2000 else v + 1900), m, d))"
| "assign_group (D_Y, txt) (y, m, d) = (Some (py_int txt), m, d)"
| "assign_group (D_m, txt) (y, m, d) = (y, py_int txt, d)"
| "assign_group (D_d, txt) (y, m, d) = (y, m, py_int txt)"

text \<open>
  \<^verbatim>\<open>datetime.strptime(data_string, format)\<close>. A directive that occurs twice
  makes the compilation of the expression fail with \<^verbatim>\<open>re.error\<close>, which is not a
  \<^verbatim>\<open>ValueError\<close>. Only the first match is looked at: if it leaves data over, the
  call fails. A missing year is 1900 (1904 while 29 February is checked, then 1900
  again), and the fields go through the constructor's range check twice: when the day of
  the year is computed and when the result is built.
\<close>

definition strptime :: "string \<Rightarrow> string \<Rightarrow> date outcome" where
  "strptime data_string format =
     bind_outcome (tokens format) (\<lambda>ts.
       if \<not> distinct (directives_of ts) then Raises ReError
       else
         (case regex_match (merge_spaces (re_items ts)) data_string of
            [] \<Rightarrow> Raises ValueError
          | (found_dict, unconverted) # _ \<Rightarrow>
              if unconverted \<noteq> [] then Raises ValueError
              else
                let (y, m, d) = fold assign_group found_dict (None, 1, 1);
                    (y1, leap_year_fix) =
                      (case y of
                         None \<Rightarrow> if m = 2 \<and> d = 29 then (1904, True) else (1900, False)
                       | Some v \<Rightarrow> (v, False))
                in if \<not> check_date_fields y1 m d then Raises ValueError
                   else
                     let y2 = (if leap_year_fix then 1900 else y1)
                     in if \<not> check_date_fields y2 m d then Raises ValueError
                        else Returns \<lparr>year = y2, month = m, day = d\<rparr>))"

section \<open>\<^verbatim>\<open>strftime\<close>\<close>

text \<open>
  Rendering copies the literal characters and writes month, day and two-digit year
  with two places. The year of \<^verbatim>\<open>%Y\<close> is written by the C library; the GNU
  library does not pad it, so a year below 1000 has fewer than four digits.
\<close>

fun render :: "date \<Rightarrow> token \<Rightarrow> string" where
  "render dt (Directive D_Y) = decimal (nat (year dt))"
| "render dt (Directive D_m) = pad2 (month dt)"
| "render dt (Directive D_d) = pad2 (day dt)"
| "render dt (Directive D_y) = pad2 (year dt mod 100)"
| "render dt (Literal c) = [c]"

definition strftime :: "string \<Rightarrow> date \<Rightarrow> string outcome" where
  "strftime format dt =
     bind_outcome (tokens format) (\<lambda>ts. Returns (concat (map (render dt) ts)))"

section \<open>Logging\<close>

text \<open>The log is the list of records emitted so far; a record keeps its level and the
  date string or file path that its message names.\<close>

datatype log_entry = Info string | Warning string | Error string

type_synonym log = "log_entry list"

section \<open>\<^verbatim>\<open>shift_date\<close>\<close>

text \<open>
  The body of the \<^verbatim>\<open>try\<close> block parses, builds the \<^verbatim>\<open>timedelta\<close>, adds
  and renders. The handler catches \<^verbatim>\<open>ValueError\<close> only: it logs a warning and
  returns the date string. Any other exception leaves the function.
\<close>

definition shift_date :: "string \<Rightarrow> int \<Rightarrow> string \<Rightarrow> log \<Rightarrow> string outcome \<times> log" where
  "shift_date date_str shift_days date_format lg =
     (case bind_outcome (strptime date_str date_format) (\<lambda>date_obj.
             bind_outcome (timedelta shift_days) (\<lambda>delta.
               bind_outcome (datetime_add date_obj delta) (\<lambda>shifted_date.
                 strftime date_format shifted_date)))
      of Raises ValueError \<Rightarrow> (Returns date_str, lg @ [Warning date_str])
       | r \<Rightarrow> (r, lg))"

section \<open>The scanner: \<^verbatim>\<open>re.findall\<close> with the date pattern\<close>

text \<open>
  The pattern of \<^verbatim>\<open>process_file\<close> is
  \<^verbatim>\<open>\d{4}-\d{2}-\d{2}|\d{2}[/-]\d{2}[/-]\d{4}|\d{2}[/-]\d{2}[/-]\d{2}\<close>:
  three alternatives, each a fixed sequence of character classes.
\<close>

definition date_pattern :: "string list list" where
  "date_pattern =
     [[digits, digits, digits, digits, ''-'', digits, digits, ''-'', digits, digits],
      [digits, digits, ''/-'', digits, digits, ''/-'', digits, digits, digits, digits],
      [digits, digits, ''/-'', digits, digits, ''/-'', digits, digits]]"

text \<open>The first alternative that matches at the start of the text decides; the result
  is the length of the match.\<close>

fun first_match :: "string list list \<Rightarrow> string \<Rightarrow> nat option" where
  "first_match [] s = None"
| "first_match (alt # alts) s =
     (if match_classes alt s then Some (length alt) else first_match alts s)"

text \<open>
  \<^verbatim>\<open>re.findall\<close> tries the pattern at each position from the left; after a match
  it goes on behind the match, otherwise one character further. Every match of the date
  pattern has at least eight characters, so the text behind a match of length \<open>n\<close>
  that starts at \<open>c # cs\<close> is \<open>drop (n - 1) cs\<close>.
\<close>

fun re_findall :: "string \<Rightarrow> string list" where
  "re_findall [] = []"
| "re_findall (c # cs) =
     (case first_match date_pattern (c # cs) of
        None \<Rightarrow> re_findall cs
      | Some n \<Rightarrow> take n (c # cs) # re_findall (drop (n - 1) cs))"

section \<open>\<^verbatim>\<open>str.replace\<close>\<close>

text \<open>
  \<^verbatim>\<open>s.replace(old, new)\<close> replaces the occurrences of \<open>old\<close> in \<open>s\<close>
  from left to right, going on behind each occurrence it has replaced. With an empty
  \<open>old\<close> it puts \<open>new\<close> before every character and at the end.
\<close>

fun replace_scan :: "string \<Rightarrow> string \<Rightarrow> string \<Rightarrow> string" where
  "replace_scan old new [] = []"
| "replace_scan old new (c # cs) =
     (if prefix old (c # cs) then new @ replace_scan old new (drop (length old - 1) cs)
      else c # replace_scan old new cs)"

definition str_replace :: "string \<Rightarrow> string \<Rightarrow> string \<Rightarrow> string" where
  "str_replace old new s =
     (if old = [] then new @ concat (map (\<lambda>c. c # new) s) else replace_scan old new s)"

section \<open>\<^verbatim>\<open>process_file\<close>\<close>

text \<open>The \<^verbatim>\<open>for\<close> loop over the dates that were found: \<open>shifted_content\<close> is
  the state, an exception of \<^verbatim>\<open>shift_date\<close> ends the loop.\<close>

fun shift_loop :: "string list \<Rightarrow> int \<Rightarrow> string \<Rightarrow> string \<Rightarrow> log \<Rightarrow> string outcome \<times> log" where
  "shift_loop [] shift_days date_format shifted_content lg = (Returns shifted_content, lg)"
| "shift_loop (date_str # dates) shift_days date_format shifted_content lg =
     (case shift_date date_str shift_days date_format lg of
        (Returns shifted_date, lg') \<Rightarrow>
          shift_loop dates shift_days date_format
            (str_replace date_str shifted_date shifted_content) lg'
      | (Raises e, lg') \<Rightarrow> (Raises e, lg')
      | (Unmodelled, lg') \<Rightarrow> (Unmodelled, lg'))"

text \<open>The part of \<^verbatim>\<open>process_file\<close> between reading and writing: scan the content,
  then run the loop on it.\<close>

definition transform :: "string \<Rightarrow> int \<Rightarrow> string \<Rightarrow> log \<Rightarrow> string outcome \<times> log" where
  "transform content shift_days date_format lg =
     shift_loop (re_findall content) shift_days date_format content lg"

text \<open>
  Files: a path holds bytes whose encoding \<^verbatim>\<open>chardet\<close> cannot tell, or text, or
  it is a directory. Opening a path for reading raises when the path holds nothing or is
  a directory. Opening a path for writing succeeds on an existing file, and on a new
  name when its directory exists (a name without directory part lies in the current
  directory); otherwise it raises. Decoding and encoding are taken to succeed.
  \<^verbatim>\<open>os.path\<close> is the POSIX one.
\<close>

datatype file_data = Undetectable | Text string | Directory

type_synonym files = "string \<rightharpoonup> file_data"

definition basename :: "string \<Rightarrow> string" where
  "basename p = rev (takeWhile (\<lambda>c. c \<noteq> CHR ''/'') (rev p))"

definition dirname :: "string \<Rightarrow> string" where
  "dirname p =
     (let head = rev (dropWhile (\<lambda>c. c \<noteq> CHR ''/'') (rev p))
      in if head \<noteq> [] \<and> \<not> list_all (\<lambda>c. c = CHR ''/'') head
         then rev (dropWhile (\<lambda>c. c = CHR ''/'') (rev head)) else head)"

definition path_join :: "string \<Rightarrow> string \<Rightarrow> string" where
  "path_join a b =
     (if b \<noteq> [] \<and> hd b = CHR ''/'' then b
      else if a = [] \<or> last a = CHR ''/'' then a @ b
      else a @ ''/'' @ b)"

definition can_open_for_writing :: "files \<Rightarrow> string \<Rightarrow> bool" where
  "can_open_for_writing fs p =
     (case fs p of
        Some Directory \<Rightarrow> False
      | Some (Text t) \<Rightarrow> True
      | Some Undetectable \<Rightarrow> True
      | None \<Rightarrow> dirname p = [] \<or> fs (dirname p) = Some Directory)"

text \<open>Every exception raised inside \<^verbatim>\<open>process_file\<close> is caught by its handler,
  which logs an error; the file is then not written.\<close>

definition process_file ::
  "string \<Rightarrow> int \<Rightarrow> string option \<Rightarrow> string \<Rightarrow> files \<times> log \<Rightarrow> (files \<times> log) outcome" where
  "process_file file_path shift_days output_path date_format st =
     (case st of (fs, lg) \<Rightarrow>
        (case fs file_path of
           None \<Rightarrow> Returns (fs, lg @ [Error file_path])
         | Some Directory \<Rightarrow> Returns (fs, lg @ [Error file_path])
         | Some Undetectable \<Rightarrow> Returns (fs, lg @ [Error file_path])
         | Some (Text content) \<Rightarrow>
             (case transform content shift_days date_format lg of
                (Returns shifted_content, lg') \<Rightarrow>
                  let output_file_path =
                        (case output_path of
                           None \<Rightarrow> file_path
                         | Some p \<Rightarrow> if p \<noteq> [] then path_join p (basename file_path)
                                     else file_path)
                  in if can_open_for_writing fs output_file_path
                     then Returns (fs(output_file_path \<mapsto> Text shifted_content),
                                   lg' @ [Info file_path])
                     else Returns (fs, lg' @ [Error file_path])
              | (Raises e, lg') \<Rightarrow> Returns (fs, lg' @ [Error file_path])
              | (Unmodelled, lg') \<Rightarrow> Unmodelled)))"

section \<open>Notions used in the statements\<close>

text \<open>A date of the calendar (any year), and a date that a \<^verbatim>\<open>datetime\<close> value can
  hold (years 1 to 9999).\<close>

definition valid_date :: "date \<Rightarrow> bool" where
  "valid_date dt \<longleftrightarrow>
     1 \<le> month dt \<and> month dt \<le> 12 \<and> 1 \<le> day dt \<and> day dt \<le> days_in_month (year dt) (month dt)"

definition representable :: "date \<Rightarrow> bool" where
  "representable dt \<longleftrightarrow> check_date_fields (year dt) (month dt) (day dt)"

text \<open>The day after a date, by the rules of the calendar: the next day of the month, or
  the first of the next month, or the first of January of the next year.\<close>

definition next_day :: "date \<Rightarrow> date" where
  "next_day dt =
     (if day dt < days_in_month (year dt) (month dt) then dt\<lparr>day := day dt + 1\<rparr>
      else if month dt < 12 then \<lparr>year = year dt, month = month dt + 1, day = 1\<rparr>
      else \<lparr>year = year dt + 1, month = 1, day = 1\<rparr>)"

text \<open>\<open>d'\<close> is exactly \<open>k\<close> calendar days from \<open>d\<close>: \<open>k\<close> steps forward from
  \<open>d\<close> reach \<open>d'\<close>, or, for a negative \<open>k\<close>, \<open>-k\<close> steps forward from \<open>d'\<close>
  reach \<open>d\<close>.\<close>

definition days_apart :: "date \<Rightarrow> int \<Rightarrow> date \<Rightarrow> bool" where
  "days_apart d k d' \<longleftrightarrow>
     (if 0 \<le> k then (next_day ^^ nat k) d = d' else (next_day ^^ nat (- k)) d' = d)"

text \<open>
  A date that a format expresses. The format is made of the directives described above
  and of literal characters, and no directive occurs twice. What the format writes
  determines the date: with \<^verbatim>\<open>%Y\<close> the year has its four digits, with
  \<^verbatim>\<open>%y\<close> the year lies in the window 1969 to 2068 that two digits are read
  in, and a field that the format does not write has the value that parsing assumes for
  it (the year 1900, the month 1, the day 1).
\<close>

definition expressible :: "string \<Rightarrow> date \<Rightarrow> bool" where
  "expressible format dt \<longleftrightarrow>
     (case tokens format of
        Returns ts \<Rightarrow>
          (let ds = directives_of ts
           in distinct ds
              \<and> (D_Y \<in> set ds \<longrightarrow> 1000 \<le> year dt)
              \<and> (D_y \<in> set ds \<longrightarrow> 1969 \<le> year dt \<and> year dt \<le> 2068)
              \<and> (D_Y \<notin> set ds \<and> D_y \<notin> set ds \<longrightarrow> year dt = 1900)
              \<and> (D_m \<notin> set ds \<longrightarrow> month dt = 1)
              \<and> (D_d \<notin> set ds \<longrightarrow> day dt = 1))
      | _ \<Rightarrow> False)"

text \<open>The last part of \<open>ord2ymd\<close>, which finds month and day from the offset in the
  year; it is named here to state lemmas about it.\<close>

definition month_day_of :: "int \<Rightarrow> bool \<Rightarrow> int \<Rightarrow> date" where
  "month_day_of y leapyear nd =
     (let m = (nd + 50) div 32;
          preceding = DAYS_BEFORE_MONTH ! nat m + (if m > 2 \<and> leapyear then 1 else 0)
      in if preceding > nd
         then let m' = m - 1;
                  preceding' = preceding
                    - (DAYS_IN_MONTH ! nat m' + (if m' = 2 \<and> leapyear then 1 else 0))
              in \<lparr>year = y, month = m', day = nd - preceding' + 1\<rparr>
         else \<lparr>year = y, month = m, day = nd - preceding + 1\<rparr>)"

text \<open>A string parses strictly under a format when \<^verbatim>\<open>strptime\<close> returns a date.\<close>

definition parses :: "string \<Rightarrow> string \<Rightarrow> bool" where
  "parses s format = (case strptime s format of Returns d \<Rightarrow> True | Raises e \<Rightarrow> False
                      | Unmodelled \<Rightarrow> False)"

text \<open>A format is modelled when all its directives and characters are described here;
  it repeats a directive when one of \<^verbatim>\<open>%Y\<close>, \<^verbatim>\<open>%m\<close>, \<^verbatim>\<open>%d\<close>,
  \<^verbatim>\<open>%y\<close> occurs twice in it.\<close>

definition modelled :: "string \<Rightarrow> bool" where
  "modelled format = (case tokens format of Unmodelled \<Rightarrow> False | Returns ts \<Rightarrow> True
                      | Raises e \<Rightarrow> True)"

definition repeats_directive :: "string \<Rightarrow> bool" where
  "repeats_directive format =
     (case tokens format of Returns ts \<Rightarrow> \<not> distinct (directives_of ts) | Raises e \<Rightarrow> False
      | Unmodelled \<Rightarrow> False)"

text \<open>
  The pattern scanner as the specification describes it: three shapes, tried in this
  order at each position, \<^verbatim>\<open>DDDD-DD-DD\<close>, \<^verbatim>\<open>DD[/-]DD[/-]DDDD\<close> and
  \<^verbatim>\<open>DD[/-]DD[/-]DD\<close>, where \<^verbatim>\<open>D\<close> is a digit and the two separators of the
  second and third shape are each a slash or a hyphen. Scanning goes from left to right,
  the first shape that fits at a position decides, and the scan goes on behind a match.
\<close>

definition is_digit :: "char \<Rightarrow> bool" where
  "is_digit c \<longleftrightarrow> c \<in> set ''0123456789''"

definition is_separator :: "char \<Rightarrow> bool" where
  "is_separator c \<longleftrightarrow> c = CHR ''/'' \<or> c = CHR ''-''"

fun shape1 :: "string \<Rightarrow> bool" where
  "shape1 (y1 # y2 # y3 # y4 # h1 # m1 # m2 # h2 # d1 # d2 # rest) \<longleftrightarrow>
     is_digit y1 \<and> is_digit y2 \<and> is_digit y3 \<and> is_digit y4 \<and> h1 = CHR ''-''
     \<and> is_digit m1 \<and> is_digit m2 \<and> h2 = CHR ''-'' \<and> is_digit d1 \<and> is_digit d2"
| "shape1 s \<longleftrightarrow> False"

fun shape2 :: "string \<Rightarrow> bool" where
  "shape2 (d1 # d2 # s1 # m1 # m2 # s2 # y1 # y2 # y3 # y4 # rest) \<longleftrightarrow>
     is_digit d1 \<and> is_digit d2 \<and> is_separator s1 \<and> is_digit m1 \<and> is_digit m2
     \<and> is_separator s2 \<and> is_digit y1 \<and> is_digit y2 \<and> is_digit y3 \<and> is_digit y4"
| "shape2 s \<longleftrightarrow> False"

fun shape3 :: "string \<Rightarrow> bool" where
  "shape3 (d1 # d2 # s1 # m1 # m2 # s2 # y1 # y2 # rest) \<longleftrightarrow>
     is_digit d1 \<and> is_digit d2 \<and> is_separator s1 \<and> is_digit m1 \<and> is_digit m2
     \<and> is_separator s2 \<and> is_digit y1 \<and> is_digit y2"
| "shape3 s \<longleftrightarrow> False"

definition shape_at :: "string \<Rightarrow> nat option" where
  "shape_at s = (if shape1 s then Some 10 else if shape2 s then Some 10
                 else if shape3 s then Some 8 else None)"

fun scan_candidates :: "string \<Rightarrow> string list" where
  "scan_candidates [] = []"
| "scan_candidates (c # cs) =
     (case shape_at (c # cs) of
        None \<Rightarrow> scan_candidates cs
      | Some n \<Rightarrow> take n (c # cs) # scan_candidates (drop (n - 1) cs))"

text \<open>
  The global replacement as the specification describes it: every occurrence of the
  literal text \<open>old\<close> anywhere in the content is replaced, not only the one the scanner
  found. An occurrence is a position at which the content reads \<open>old\<close>; the first
  occurrence is replaced and the replacement goes on in the text behind it. (Candidates
  are never empty.)
\<close>

definition occurs_at :: "string \<Rightarrow> string \<Rightarrow> nat \<Rightarrow> bool" where
  "occurs_at old s i \<longleftrightarrow> take (length old) (drop i s) = old"

definition first_occurrence :: "string \<Rightarrow> string \<Rightarrow> nat option" where
  "first_occurrence old s = find (occurs_at old s) [0 ..< Suc (length s)]"

function replace_all :: "string \<Rightarrow> string \<Rightarrow> string \<Rightarrow> string" where
  "replace_all old new s =
     (if old = [] then s
      else case first_occurrence old s of
             None \<Rightarrow> s
           | Some i \<Rightarrow> take i s @ new @ replace_all old new (drop (i + length old) s))"
  by pat_completeness auto
termination
proof (relation "measure (\<lambda>(old, new, s). length s)")
  show "wf (measure (\<lambda>(old, new, s). length s))" by simp
next
  fix old new :: string and s :: string and i :: nat
  assume old: "old \<noteq> []" and fo: "first_occurrence old s = Some i"
  from fo have "occurs_at old s i"
    by (auto simp: first_occurrence_def find_Some_iff)
  then have "take (length old) (drop i s) = old" by (simp add: occurs_at_def)
  with old have "drop i s \<noteq> []" by auto
  then have "i < length s" by simp
  moreover from old have "0 < length old" by simp
  ultimately have "length (drop (i + length old) s) < length s"
    by (simp only: length_drop; arith)
  then show "((old, new, drop (i + length old) s), (old, new, s))
                 \<in> measure (\<lambda>(old, new, s). length s)" by simp
qed

declare replace_all.simps [simp del]

text \<open>
  The content transformer as the specification words it: scan the content, then fold
  over the candidates in scan order, duplicates included; each step computes the shifted
  form of the candidate and replaces every occurrence of the candidate in the current
  content. Once a step has raised, the remaining steps do nothing.
\<close>

definition transform_step ::
  "int \<Rightarrow> string \<Rightarrow> string \<Rightarrow> string outcome \<times> log \<Rightarrow> string outcome \<times> log" where
  "transform_step offset format candidate st =
     (case st of
        (Returns current, lg) \<Rightarrow>
          (case shift_date candidate offset format lg of
             (Returns shifted, lg') \<Rightarrow> (Returns (replace_all candidate shifted current), lg')
           | (Raises e, lg') \<Rightarrow> (Raises e, lg')
           | (Unmodelled, lg') \<Rightarrow> (Unmodelled, lg'))
      | (Raises e, lg) \<Rightarrow> (Raises e, lg)
      | (Unmodelled, lg) \<Rightarrow> (Unmodelled, lg))"

definition transform_spec :: "string \<Rightarrow> int \<Rightarrow> string \<Rightarrow> log \<Rightarrow> string outcome \<times> log" where
  "transform_spec content offset format lg =
     fold (transform_step offset format) (scan_candidates content) (Returns content, lg)"

text \<open>The characters of which date-shaped candidates consist.\<close>

definition is_date_char :: "char \<Rightarrow> bool" where
  "is_date_char c \<longleftrightarrow> c \<in> set (digits @ ''/-'')"

section \<open>The calendar: ordinals and dates\<close>

lemma DAYS_BEFORE_MONTH_eq:
  "DAYS_BEFORE_MONTH = [-1, 0, 31, 59, 90, 120, 151, 181, 212, 243, 273, 304, 334]"
  by (simp add: DAYS_BEFORE_MONTH_def DAYS_IN_MONTH_def)

lemma DI_consts: "DI400Y = 146097" "DI100Y = 36524" "DI4Y = 1461"
  by (simp_all add: DI400Y_def DI100Y_def DI4Y_def days_before_year_def)

lemma dby_decomp:
  fixes a b c e :: int
  assumes "0 \<le> b" "b < 4" "0 \<le> c" "c < 25" "0 \<le> e" "e < 4"
  shows "days_before_year (400 * a + 100 * b + 4 * c + e + 1) = 146097 * a + 36524 * b + 1461 * c + 365 * e"
proof -
  let ?Y = "400 * a + 100 * b + 4 * c + e"
  have d4: "?Y div 4 = 100 * a + 25 * b + c"
    by (rule int_div_pos_eq [where r = e]) (use assms in auto)
  have d100: "?Y div 100 = 4 * a + b"
    by (rule int_div_pos_eq [where r = "4 * c + e"]) (use assms in auto)
  have d400: "?Y div 400 = a"
    by (rule int_div_pos_eq [where r = "100 * b + 4 * c + e"]) (use assms in auto)
  show ?thesis
    unfolding days_before_year_def Let_def
    using d4 d100 d400 by simp
qed

lemma mod_zero_in_range:
  fixes x k :: int
  assumes "1 \<le> x" "x \<le> k"
  shows "x mod k = 0 \<longleftrightarrow> x = k"
proof (cases "x = k")
  case True
  then show ?thesis by simp
next
  case False
  with assms have "x mod k = x" by simp
  with assms False show ?thesis by simp
qed

lemma is_leap_decomp:
  fixes a b c e :: int
  assumes "0 \<le> b" "b < 4" "0 \<le> c" "c < 25" "0 \<le> e" "e < 4"
  shows "is_leap (400 * a + 100 * b + 4 * c + e + 1) \<longleftrightarrow> e = 3 \<and> (c \<noteq> 24 \<or> b = 3)"
proof -
  let ?y = "400 * a + 100 * b + 4 * c + e + 1"
  have m4: "?y mod 4 = (e + 1) mod 4"
  proof -
    have "?y = (e + 1) + (100 * a + 25 * b + c) * 4" by simp
    then show ?thesis by (metis mod_mult_self1)
  qed
  have m100: "?y mod 100 = (4 * c + e + 1) mod 100"
  proof -
    have "?y = (4 * c + e + 1) + (4 * a + b) * 100" by simp
    then show ?thesis by (metis mod_mult_self1)
  qed
  have m400: "?y mod 400 = (100 * b + 4 * c + e + 1) mod 400"
  proof -
    have "?y = (100 * b + 4 * c + e + 1) + a * 400" by simp
    then show ?thesis by (metis mod_mult_self1)
  qed
  have e4: "(e + 1) mod 4 = 0 \<longleftrightarrow> e = 3"
  proof -
    have "1 \<le> e + 1" "e + 1 \<le> 4" using assms by linarith+
    then have "(e + 1) mod 4 = 0 \<longleftrightarrow> e + 1 = 4" by (rule mod_zero_in_range)
    then show ?thesis by linarith
  qed
  have c100: "(4 * c + e + 1) mod 100 = 0 \<longleftrightarrow> c = 24 \<and> e = 3"
  proof -
    have "1 \<le> 4 * c + e + 1" "4 * c + e + 1 \<le> 100" using assms by linarith+
    then have "(4 * c + e + 1) mod 100 = 0 \<longleftrightarrow> 4 * c + e + 1 = 100"
      by (rule mod_zero_in_range)
    then show ?thesis using assms by linarith
  qed
  have b400: "(100 * b + 4 * c + e + 1) mod 400 = 0 \<longleftrightarrow> b = 3 \<and> c = 24 \<and> e = 3"
  proof -
    have "1 \<le> 100 * b + 4 * c + e + 1" "100 * b + 4 * c + e + 1 \<le> 400" using assms by linarith+
    then have "(100 * b + 4 * c + e + 1) mod 400 = 0 \<longleftrightarrow> 100 * b + 4 * c + e + 1 = 400"
      by (rule mod_zero_in_range)
    then show ?thesis using assms by linarith
  qed
  show ?thesis
    unfolding is_leap_def m4 m100 m400 e4 c100 b400 by auto
qed

lemma year_decomp:
  fixes Y :: int
  obtains a b c e where "Y = 400 * a + 100 * b + 4 * c + e"
    "0 \<le> b" "b < 4" "0 \<le> c" "c < 25" "0 \<le> e" "e < 4"
proof -
  define a where "a = Y div 400"
  define r where "r = Y mod 400"
  define b where "b = r div 100"
  define s where "s = r mod 100"
  define c where "c = s div 4"
  define e where "e = s mod 4"
  have r: "0 \<le> r" "r < 400" by (simp_all add: r_def)
  have s: "0 \<le> s" "s < 100" by (simp_all add: s_def)
  have e: "0 \<le> e" "e < 4" by (simp_all add: e_def)
  have 1: "Y = 400 * a + r" by (simp add: a_def r_def)
  have 2: "r = 100 * b + s" by (simp add: b_def s_def)
  have 3: "s = 4 * c + e" by (simp add: c_def e_def)
  have b: "0 \<le> b" "b < 4" using r 2 s by linarith+
  have c: "0 \<le> c" "c < 25" using s 3 e by linarith+
  have "Y = 400 * a + 100 * b + 4 * c + e" using 1 2 3 by linarith
  then show ?thesis using that b c e by blast
qed

lemma ord2ymd_regular:
  fixes a b c e doy :: int
  assumes "0 \<le> b" "b < 4" "0 \<le> c" "c < 25" "0 \<le> e" "e < 4" "0 \<le> doy" "doy \<le> 364"
  shows "ord2ymd (146097 * a + 36524 * b + 1461 * c + 365 * e + doy + 1) =
         month_day_of (400 * a + 100 * b + 4 * c + e + 1) (e = 3 \<and> (c \<noteq> 24 \<or> b = 3)) doy"
proof -
  let ?n = "146097 * a + 36524 * b + 1461 * c + 365 * e + doy"
  let ?r = "36524 * b + 1461 * c + 365 * e + doy"
  let ?r2 = "1461 * c + 365 * e + doy"
  let ?r3 = "365 * e + doy"
  have r3: "0 \<le> ?r3" "?r3 < 1461" using assms by linarith+
  have r2: "0 \<le> ?r2" "?r2 < 36524" using assms by linarith+
  have r: "0 \<le> ?r" "?r < 146097" using assms by linarith+
  have n400: "?n div 146097 = a" by (rule int_div_pos_eq [where r = ?r]) (use r in auto)
  have na: "?n mod 146097 = ?r" by (rule int_mod_pos_eq [where q = a]) (use r in auto)
  have n100: "?r div 36524 = b" by (rule int_div_pos_eq [where r = ?r2]) (use r2 in auto)
  have nb: "?r mod 36524 = ?r2" by (rule int_mod_pos_eq [where q = b]) (use r2 in auto)
  have n4: "?r2 div 1461 = c" by (rule int_div_pos_eq [where r = ?r3]) (use r3 in auto)
  have nc: "?r2 mod 1461 = ?r3" by (rule int_mod_pos_eq [where q = c]) (use r3 in auto)
  have n1: "?r3 div 365 = e" by (rule int_div_pos_eq [where r = doy]) (use assms in auto)
  have nd: "?r3 mod 365 = doy" by (rule int_mod_pos_eq [where q = e]) (use assms in auto)
  have ne: "e \<noteq> 4" "b \<noteq> 4" using assms by auto
  have y: "a * 400 + 1 + b * 100 + c * 4 + e = 400 * a + 100 * b + 4 * c + e + 1" by simp
  have c: "(e = 4 \<or> b = 4) = False" using ne by simp
  show ?thesis
    unfolding ord2ymd_def DI_consts Let_def add_diff_cancel_right' na n400 nb n100 nc n4 nd n1
      y c if_False month_day_of_def
    by (rule refl)
qed

lemma ord2ymd_last_a:
  fixes a b c :: int
  assumes "0 \<le> b" "b < 4" "0 \<le> c" "c < 24"
  shows "ord2ymd (146097 * a + 36524 * b + 1461 * c + 1460 + 1) =
         \<lparr>year = 400 * a + 100 * b + 4 * c + 4, month = 12, day = 31\<rparr>"
proof -
  let ?n = "146097 * a + 36524 * b + 1461 * c + 1460"
  let ?r = "36524 * b + 1461 * c + 1460"
  let ?r2 = "1461 * c + 1460"
  have r2: "0 \<le> ?r2" "?r2 < 36524" using assms by linarith+
  have r: "0 \<le> ?r" "?r < 146097" using assms by linarith+
  have n400: "?n div 146097 = a" by (rule int_div_pos_eq [where r = ?r]) (use r in auto)
  have na: "?n mod 146097 = ?r" by (rule int_mod_pos_eq [where q = a]) (use r in auto)
  have n100: "?r div 36524 = b" by (rule int_div_pos_eq [where r = ?r2]) (use r2 in auto)
  have nb: "?r mod 36524 = ?r2" by (rule int_mod_pos_eq [where q = b]) (use r2 in auto)
  have n4: "?r2 div 1461 = c" by (rule int_div_pos_eq [where r = 1460]) (use assms in auto)
  have nc: "?r2 mod 1461 = 1460" by (rule int_mod_pos_eq [where q = c]) (use assms in auto)
  have n1: "(1460::int) div 365 = 4" by simp
  have c: "((4::int) = 4 \<or> b = 4) = True" by simp
  have y: "a * 400 + 1 + b * 100 + c * 4 + 4 - 1 = 400 * a + 100 * b + 4 * c + 4" by simp
  show ?thesis
    unfolding ord2ymd_def DI_consts Let_def add_diff_cancel_right' na n400 nb n100 nc n4 n1
      c if_True y
    by (rule refl)
qed

lemma ord2ymd_last_b:
  fixes a :: int
  shows "ord2ymd (146097 * a + 146096 + 1) = \<lparr>year = 400 * a + 400, month = 12, day = 31\<rparr>"
proof -
  let ?n = "146097 * a + 146096"
  have n400: "?n div 146097 = a" by (rule int_div_pos_eq [where r = 146096]) auto
  have na: "?n mod 146097 = 146096" by (rule int_mod_pos_eq [where q = a]) auto
  have n100: "(146096::int) div 36524 = 4" by simp
  have nb: "(146096::int) mod 36524 = 0" by simp
  have z: "(0::int) div 1461 = 0" "(0::int) mod 1461 = 0" "(0::int) div 365 = 0" by simp_all
  have c: "((0::int) = 4 \<or> (4::int) = 4) = True" by simp
  have y: "a * 400 + 1 + 4 * 100 + 0 * 4 + 0 - 1 = 400 * a + 400" by simp
  show ?thesis
    unfolding ord2ymd_def DI_consts Let_def add_diff_cancel_right' na n400 nb n100 z
      c if_True y
    by (rule refl)
qed

lemma month_tables:
  "DAYS_BEFORE_MONTH ! 1 = 0" "DAYS_BEFORE_MONTH ! 2 = 31" "DAYS_BEFORE_MONTH ! 3 = 59"
  "DAYS_BEFORE_MONTH ! 4 = 90" "DAYS_BEFORE_MONTH ! 5 = 120" "DAYS_BEFORE_MONTH ! 6 = 151"
  "DAYS_BEFORE_MONTH ! 7 = 181" "DAYS_BEFORE_MONTH ! 8 = 212" "DAYS_BEFORE_MONTH ! 9 = 243"
  "DAYS_BEFORE_MONTH ! 10 = 273" "DAYS_BEFORE_MONTH ! 11 = 304" "DAYS_BEFORE_MONTH ! 12 = 334"
  "DAYS_IN_MONTH ! 1 = 31" "DAYS_IN_MONTH ! 2 = 28" "DAYS_IN_MONTH ! 3 = 31"
  "DAYS_IN_MONTH ! 4 = 30" "DAYS_IN_MONTH ! 5 = 31" "DAYS_IN_MONTH ! 6 = 30"
  "DAYS_IN_MONTH ! 7 = 31" "DAYS_IN_MONTH ! 8 = 31" "DAYS_IN_MONTH ! 9 = 30"
  "DAYS_IN_MONTH ! 10 = 31" "DAYS_IN_MONTH ! 11 = 30" "DAYS_IN_MONTH ! 12 = 31"
  "DAYS_BEFORE_MONTH ! Suc 0 = 0" "DAYS_IN_MONTH ! Suc 0 = 31"
  by (simp_all add: DAYS_BEFORE_MONTH_eq DAYS_IN_MONTH_def)

lemma est_cases:
  fixes x lo :: int
  assumes "32 * k - 50 \<le> x" "x < 32 * (k + 2) - 50"
  shows "(x + 50) div 32 = k \<or> (x + 50) div 32 = k + 1"
proof -
  define q where "q = (x + 50) div 32"
  define r where "r = (x + 50) mod 32"
  have "x + 50 = 32 * q + r" "0 \<le> r" "r < 32" by (simp_all add: q_def r_def)
  have a: "32 * k \<le> x + 50" "x + 50 < 32 * k + 64" using assms by simp_all
  have "k \<le> q" using a(1) \<open>x + 50 = 32 * q + r\<close> \<open>r < 32\<close> by linarith
  moreover have "q < k + 2" using a(2) \<open>x + 50 = 32 * q + r\<close> \<open>0 \<le> r\<close> by linarith
  ultimately have "k \<le> q" "q < k + 2" .
  then show ?thesis unfolding q_def by linarith
qed

lemma month_day_of_feb:
  assumes "1 \<le> d" "d \<le> (if leap then 29 else 28)"
  shows "month_day_of y leap (31 + d - 1) = \<lparr>year = y, month = 2, day = d\<rparr>"
proof -
  have "(31 + d - 1 + 50) div 32 = 2 \<or> (31 + d - 1 + 50) div 32 = 2 + 1"
    by (rule est_cases) (use assms in \<open>auto split: if_splits\<close>)
  then show ?thesis
    unfolding month_day_of_def Let_def
    using assms by (auto simp: month_tables)
qed

lemma month_day_of_jan:
  assumes "1 \<le> d" "d \<le> 31"
  shows "month_day_of y leap (0 + d - 1) = \<lparr>year = y, month = 1, day = d\<rparr>"
proof -
  have "(0 + d - 1 + 50) div 32 = 1 \<or> (0 + d - 1 + 50) div 32 = 1 + 1"
    by (rule est_cases) (use assms in \<open>auto split: if_splits\<close>)
  then show ?thesis
    unfolding month_day_of_def Let_def
    using assms by (auto simp: month_tables)
qed

lemma month_day_of_mar:
  assumes "1 \<le> d" "d \<le> 31"
  shows "month_day_of y leap (59 + (if leap then 1 else 0) + d - 1) = \<lparr>year = y, month = 3, day = d\<rparr>"
proof -
  have "(59 + (if leap then 1 else 0) + d - 1 + 50) div 32 = 3 \<or> (59 + (if leap then 1 else 0) + d - 1 + 50) div 32 = 3 + 1"
    by (rule est_cases) (use assms in \<open>auto split: if_splits\<close>)
  then show ?thesis
    unfolding month_day_of_def Let_def
    using assms by (auto simp: month_tables)
qed

lemma month_day_of_apr:
  assumes "1 \<le> d" "d \<le> 30"
  shows "month_day_of y leap (90 + (if leap then 1 else 0) + d - 1) = \<lparr>year = y, month = 4, day = d\<rparr>"
proof -
  have "(90 + (if leap then 1 else 0) + d - 1 + 50) div 32 = 4 \<or> (90 + (if leap then 1 else 0) + d - 1 + 50) div 32 = 4 + 1"
    by (rule est_cases) (use assms in \<open>auto split: if_splits\<close>)
  then show ?thesis
    unfolding month_day_of_def Let_def
    using assms by (auto simp: month_tables)
qed

lemma month_day_of_may:
  assumes "1 \<le> d" "d \<le> 31"
  shows "month_day_of y leap (120 + (if leap then 1 else 0) + d - 1) = \<lparr>year = y, month = 5, day = d\<rparr>"
proof -
  have "(120 + (if leap then 1 else 0) + d - 1 + 50) div 32 = 5 \<or> (120 + (if leap then 1 else 0) + d - 1 + 50) div 32 = 5 + 1"
    by (rule est_cases) (use assms in \<open>auto split: if_splits\<close>)
  then show ?thesis
    unfolding month_day_of_def Let_def
    using assms by (auto simp: month_tables)
qed

lemma month_day_of_jun:
  assumes "1 \<le> d" "d \<le> 30"
  shows "month_day_of y leap (151 + (if leap then 1 else 0) + d - 1) = \<lparr>year = y, month = 6, day = d\<rparr>"
proof -
  have "(151 + (if leap then 1 else 0) + d - 1 + 50) div 32 = 6 \<or> (151 + (if leap then 1 else 0) + d - 1 + 50) div 32 = 6 + 1"
    by (rule est_cases) (use assms in \<open>auto split: if_splits\<close>)
  then show ?thesis
    unfolding month_day_of_def Let_def
    using assms by (auto simp: month_tables)
qed

lemma month_day_of_jul:
  assumes "1 \<le> d" "d \<le> 31"
  shows "month_day_of y leap (181 + (if leap then 1 else 0) + d - 1) = \<lparr>year = y, month = 7, day = d\<rparr>"
proof -
  have "(181 + (if leap then 1 else 0) + d - 1 + 50) div 32 = 7 \<or> (181 + (if leap then 1 else 0) + d - 1 + 50) div 32 = 7 + 1"
    by (rule est_cases) (use assms in \<open>auto split: if_splits\<close>)
  then show ?thesis
    unfolding month_day_of_def Let_def
    using assms by (auto simp: month_tables)
qed

lemma month_day_of_aug:
  assumes "1 \<le> d" "d \<le> 31"
  shows "month_day_of y leap (212 + (if leap then 1 else 0) + d - 1) = \<lparr>year = y, month = 8, day = d\<rparr>"
proof -
  have "(212 + (if leap then 1 else 0) + d - 1 + 50) div 32 = 8 \<or> (212 + (if leap then 1 else 0) + d - 1 + 50) div 32 = 8 + 1"
    by (rule est_cases) (use assms in \<open>auto split: if_splits\<close>)
  then show ?thesis
    unfolding month_day_of_def Let_def
    using assms by (auto simp: month_tables)
qed

lemma month_day_of_sep:
  assumes "1 \<le> d" "d \<le> 30"
  shows "month_day_of y leap (243 + (if leap then 1 else 0) + d - 1) = \<lparr>year = y, month = 9, day = d\<rparr>"
proof -
  have "(243 + (if leap then 1 else 0) + d - 1 + 50) div 32 = 9 \<or> (243 + (if leap then 1 else 0) + d - 1 + 50) div 32 = 9 + 1"
    by (rule est_cases) (use assms in \<open>auto split: if_splits\<close>)
  then show ?thesis
    unfolding month_day_of_def Let_def
    using assms by (auto simp: month_tables)
qed

lemma month_day_of_oct:
  assumes "1 \<le> d" "d \<le> 31"
  shows "month_day_of y leap (273 + (if leap then 1 else 0) + d - 1) = \<lparr>year = y, month = 10, day = d\<rparr>"
proof -
  have "(273 + (if leap then 1 else 0) + d - 1 + 50) div 32 = 10 \<or> (273 + (if leap then 1 else 0) + d - 1 + 50) div 32 = 10 + 1"
    by (rule est_cases) (use assms in \<open>auto split: if_splits\<close>)
  then show ?thesis
    unfolding month_day_of_def Let_def
    using assms by (auto simp: month_tables)
qed

lemma month_day_of_nov:
  assumes "1 \<le> d" "d \<le> 30"
  shows "month_day_of y leap (304 + (if leap then 1 else 0) + d - 1) = \<lparr>year = y, month = 11, day = d\<rparr>"
proof -
  have "(304 + (if leap then 1 else 0) + d - 1 + 50) div 32 = 11 \<or> (304 + (if leap then 1 else 0) + d - 1 + 50) div 32 = 11 + 1"
    by (rule est_cases) (use assms in \<open>auto split: if_splits\<close>)
  then show ?thesis
    unfolding month_day_of_def Let_def
    using assms by (auto simp: month_tables)
qed

lemma month_day_of_dec:
  assumes "1 \<le> d" "d \<le> 31"
  shows "month_day_of y leap (334 + (if leap then 1 else 0) + d - 1) = \<lparr>year = y, month = 12, day = d\<rparr>"
proof -
  have "(334 + (if leap then 1 else 0) + d - 1 + 50) div 32 = 12"
    by (rule int_div_pos_eq [where r = "334 + (if leap then 1 else 0) + d - 1 + 50 - 384"]) (use assms in \<open>auto split: if_splits\<close>)
  then show ?thesis
    unfolding month_day_of_def Let_def
    using assms by (auto simp: month_tables)
qed

lemma month_cases:
  fixes m :: int
  assumes "1 \<le> m" "m \<le> 12"
  obtains "m = 1" | "m = 2" | "m = 3" | "m = 4" | "m = 5" | "m = 6"
    | "m = 7" | "m = 8" | "m = 9" | "m = 10" | "m = 11" | "m = 12"
proof -
  have "m = 1 \<or> m = 2 \<or> m = 3 \<or> m = 4 \<or> m = 5 \<or> m = 6
      \<or> m = 7 \<or> m = 8 \<or> m = 9 \<or> m = 10 \<or> m = 11 \<or> m = 12"
    using assms by presburger
  then show ?thesis using that by blast
qed

lemma month_day_of_correct:
  assumes "1 \<le> m" "m \<le> 12" "1 \<le> d"
    "d \<le> (if m = 2 \<and> leap then 29 else DAYS_IN_MONTH ! nat m)"
  shows "month_day_of y leap
           (DAYS_BEFORE_MONTH ! nat m + (if m > 2 \<and> leap then 1 else 0) + d - 1)
         = \<lparr>year = y, month = m, day = d\<rparr>"
  using assms(1,2)
proof (cases m rule: month_cases)
  case 1
  from assms(4) have dd: "d \<le> 31" unfolding 1 by (simp add: month_tables)
  show ?thesis unfolding 1 using month_day_of_jan [OF assms(3) dd, of y] by (simp add: month_tables)
next
  case 2
  from assms(4) have dd: "d \<le> (if leap then 29 else 28)" unfolding 2 by (auto simp: month_tables split: if_splits)
  show ?thesis unfolding 2 using month_day_of_feb [OF assms(3) dd, of y] by (simp add: month_tables)
next
  case 3
  from assms(4) have dd: "d \<le> 31" unfolding 3 by (simp add: month_tables)
  show ?thesis unfolding 3 using month_day_of_mar [OF assms(3) dd, of y] by (simp add: month_tables)
next
  case 4
  from assms(4) have dd: "d \<le> 30" unfolding 4 by (simp add: month_tables)
  show ?thesis unfolding 4 using month_day_of_apr [OF assms(3) dd, of y] by (simp add: month_tables)
next
  case 5
  from assms(4) have dd: "d \<le> 31" unfolding 5 by (simp add: month_tables)
  show ?thesis unfolding 5 using month_day_of_may [OF assms(3) dd, of y] by (simp add: month_tables)
next
  case 6
  from assms(4) have dd: "d \<le> 30" unfolding 6 by (simp add: month_tables)
  show ?thesis unfolding 6 using month_day_of_jun [OF assms(3) dd, of y] by (simp add: month_tables)
next
  case 7
  from assms(4) have dd: "d \<le> 31" unfolding 7 by (simp add: month_tables)
  show ?thesis unfolding 7 using month_day_of_jul [OF assms(3) dd, of y] by (simp add: month_tables)
next
  case 8
  from assms(4) have dd: "d \<le> 31" unfolding 8 by (simp add: month_tables)
  show ?thesis unfolding 8 using month_day_of_aug [OF assms(3) dd, of y] by (simp add: month_tables)
next
  case 9
  from assms(4) have dd: "d \<le> 30" unfolding 9 by (simp add: month_tables)
  show ?thesis unfolding 9 using month_day_of_sep [OF assms(3) dd, of y] by (simp add: month_tables)
next
  case 10
  from assms(4) have dd: "d \<le> 31" unfolding 10 by (simp add: month_tables)
  show ?thesis unfolding 10 using month_day_of_oct [OF assms(3) dd, of y] by (simp add: month_tables)
next
  case 11
  from assms(4) have dd: "d \<le> 30" unfolding 11 by (simp add: month_tables)
  show ?thesis unfolding 11 using month_day_of_nov [OF assms(3) dd, of y] by (simp add: month_tables)
next
  case 12
  from assms(4) have dd: "d \<le> 31" unfolding 12 by (simp add: month_tables)
  show ?thesis unfolding 12 using month_day_of_dec [OF assms(3) dd, of y] by (simp add: month_tables)
qed

lemma day_of_year_bounds:
  assumes "1 \<le> m" "m \<le> 12" "1 \<le> d"
    "d \<le> (if m = 2 \<and> leap then 29 else DAYS_IN_MONTH ! nat m)"
  shows "0 \<le> DAYS_BEFORE_MONTH ! nat m + (if m > 2 \<and> leap then 1 else 0) + d - 1
       \<and> (DAYS_BEFORE_MONTH ! nat m + (if m > 2 \<and> leap then 1 else 0) + d - 1 \<le> 364
         \<or> (leap \<and> m = 12 \<and> d = 31))"
  using assms(1,2)
proof (cases m rule: month_cases)
  case 1
  from assms(4) have dd: "d \<le> 31" unfolding 1 by (simp add: month_tables)
  show ?thesis unfolding 1 using assms(3) dd by (simp add: month_tables split: if_splits)
next
  case 2
  from assms(4) have dd: "d \<le> (if leap then 29 else 28)" unfolding 2 by (auto simp: month_tables split: if_splits)
  show ?thesis unfolding 2 using assms(3) dd by (simp add: month_tables split: if_splits)
next
  case 3
  from assms(4) have dd: "d \<le> 31" unfolding 3 by (simp add: month_tables)
  show ?thesis unfolding 3 using assms(3) dd by (simp add: month_tables split: if_splits)
next
  case 4
  from assms(4) have dd: "d \<le> 30" unfolding 4 by (simp add: month_tables)
  show ?thesis unfolding 4 using assms(3) dd by (simp add: month_tables split: if_splits)
next
  case 5
  from assms(4) have dd: "d \<le> 31" unfolding 5 by (simp add: month_tables)
  show ?thesis unfolding 5 using assms(3) dd by (simp add: month_tables split: if_splits)
next
  case 6
  from assms(4) have dd: "d \<le> 30" unfolding 6 by (simp add: month_tables)
  show ?thesis unfolding 6 using assms(3) dd by (simp add: month_tables split: if_splits)
next
  case 7
  from assms(4) have dd: "d \<le> 31" unfolding 7 by (simp add: month_tables)
  show ?thesis unfolding 7 using assms(3) dd by (simp add: month_tables split: if_splits)
next
  case 8
  from assms(4) have dd: "d \<le> 31" unfolding 8 by (simp add: month_tables)
  show ?thesis unfolding 8 using assms(3) dd by (simp add: month_tables split: if_splits)
next
  case 9
  from assms(4) have dd: "d \<le> 30" unfolding 9 by (simp add: month_tables)
  show ?thesis unfolding 9 using assms(3) dd by (simp add: month_tables split: if_splits)
next
  case 10
  from assms(4) have dd: "d \<le> 31" unfolding 10 by (simp add: month_tables)
  show ?thesis unfolding 10 using assms(3) dd by (simp add: month_tables split: if_splits)
next
  case 11
  from assms(4) have dd: "d \<le> 30" unfolding 11 by (simp add: month_tables)
  show ?thesis unfolding 11 using assms(3) dd by (simp add: month_tables split: if_splits)
next
  case 12
  from assms(4) have dd: "d \<le> 31" unfolding 12 by (simp add: month_tables)
  show ?thesis unfolding 12 using assms(3) dd by (auto simp: month_tables split: if_splits)
qed

lemma ord2ymd_ymd2ord:
  assumes m: "1 \<le> m" "m \<le> 12" and d: "1 \<le> d" "d \<le> days_in_month y m"
  shows "ord2ymd (ymd2ord y m d) = \<lparr>year = y, month = m, day = d\<rparr>"
proof -
  obtain a b c e where Y: "y - 1 = 400 * a + 100 * b + 4 * c + e"
    and bnd: "0 \<le> b" "b < 4" "0 \<le> c" "c < 25" "0 \<le> e" "e < 4"
    by (rule year_decomp)
  define leap where "leap \<longleftrightarrow> e = 3 \<and> (c \<noteq> 24 \<or> b = 3)"
  define doy where "doy = DAYS_BEFORE_MONTH ! nat m + (if m > 2 \<and> leap then 1 else 0) + d - 1"
  have y: "y = 400 * a + 100 * b + 4 * c + e + 1" using Y by simp
  have leap: "is_leap y = leap"
    unfolding y leap_def by (rule is_leap_decomp) (use bnd in auto)
  have dby: "days_before_year y = 146097 * a + 36524 * b + 1461 * c + 365 * e"
    unfolding y by (rule dby_decomp) (use bnd in auto)
  have d': "d \<le> (if m = 2 \<and> leap then 29 else DAYS_IN_MONTH ! nat m)"
    using d(2) by (simp add: days_in_month_def leap)
  have ord: "ymd2ord y m d = 146097 * a + 36524 * b + 1461 * c + 365 * e + doy + 1"
    by (simp add: ymd2ord_def dby days_before_month_def leap doy_def)
  have bounds: "0 \<le> doy \<and> (doy \<le> 364 \<or> (leap \<and> m = 12 \<and> d = 31))"
    unfolding doy_def by (rule day_of_year_bounds [OF m d(1) d'])
  show ?thesis
  proof (cases "doy \<le> 364")
    case True
    have "0 \<le> doy" using bounds by simp
    from ord2ymd_regular [OF bnd this True, of a]
    have "ord2ymd (ymd2ord y m d) = month_day_of y leap doy"
      unfolding ord leap_def by (simp only: y)
    also have "\<dots> = \<lparr>year = y, month = m, day = d\<rparr>"
      unfolding doy_def by (rule month_day_of_correct [OF m d(1) d'])
    finally show ?thesis .
  next
    case False
    with bounds have last: "leap" "m = 12" "d = 31" by auto
    then have doy365: "doy = 365" by (simp add: doy_def month_tables)
    from last have e3: "e = 3" and cb: "c \<noteq> 24 \<or> b = 3" by (auto simp: leap_def)
    show ?thesis
    proof (cases "c = 24")
      case False
      then have c: "c < 24" using bnd by simp
      have "ymd2ord y m d = 146097 * a + 36524 * b + 1461 * c + 1460 + 1"
        by (simp add: ord e3 doy365)
      moreover have "y = 400 * a + 100 * b + 4 * c + 4" by (simp add: y e3)
      ultimately show ?thesis
        using ord2ymd_last_a [OF bnd(1,2,3) c, of a] last by simp
    next
      case True
      with cb have b3: "b = 3" by simp
      have "ymd2ord y m d = 146097 * a + 146096 + 1"
        by (simp add: ord e3 doy365 True b3)
      moreover have "y = 400 * a + 400" by (simp add: y e3 True b3)
      ultimately show ?thesis
        using ord2ymd_last_b [of a] last by simp
    qed
  qed
qed

lemma div_pred:
  fixes y k :: int
  assumes "0 < k"
  shows "y div k - (y - 1) div k = (if y mod k = 0 then 1 else 0)"
proof -
  define q where "q = y div k"
  define r where "r = y mod k"
  have yq: "y = k * q + r" and r: "0 \<le> r" "r < k" using assms by (simp_all add: q_def r_def)
  show ?thesis
  proof (cases "r = 0")
    case True
    have "(y - 1) div k = q - 1"
      by (rule int_div_pos_eq [where r = "k - 1"]) (use yq True assms in \<open>auto simp: algebra_simps\<close>)
    then show ?thesis using True by (simp add: q_def [symmetric] r_def [symmetric])
  next
    case False
    have "(y - 1) div k = q"
      by (rule int_div_pos_eq [where r = "r - 1"]) (use yq False r in \<open>auto simp: algebra_simps\<close>)
    then show ?thesis using False by (simp add: q_def [symmetric] r_def [symmetric])
  qed
qed

lemma days_before_year_Suc:
  "days_before_year (y + 1) = days_before_year y + (if is_leap y then 366 else 365)"
proof -
  define p4 where "p4 = (y - 1) div 4"
  define p100 where "p100 = (y - 1) div 100"
  define p400 where "p400 = (y - 1) div 400"
  define q4 where "q4 = y div 4"
  define q100 where "q100 = y div 100"
  define q400 where "q400 = y div 400"
  have 4: "q4 - p4 = (if y mod 4 = 0 then 1 else 0)"
    unfolding q4_def p4_def by (rule div_pred) simp
  have 100: "q100 - p100 = (if y mod 100 = 0 then 1 else 0)"
    unfolding q100_def p100_def by (rule div_pred) simp
  have 400: "q400 - p400 = (if y mod 400 = 0 then 1 else 0)"
    unfolding q400_def p400_def by (rule div_pred) simp
  have i1: "y mod 100 = 0" if "y mod 400 = 0"
    using mod_mod_cancel [of 100 400 y] that by simp
  have i2: "y mod 4 = 0" if "y mod 100 = 0"
    using mod_mod_cancel [of 4 100 y] that by simp
  have dy: "days_before_year y = (y - 1) * 365 + p4 - p100 + p400"
    unfolding days_before_year_def Let_def p4_def p100_def p400_def by (rule refl)
  have dy1: "days_before_year (y + 1) = y * 365 + q4 - q100 + q400"
    unfolding days_before_year_def Let_def q4_def q100_def q400_def add_diff_cancel_right'
    by (rule refl)
  show ?thesis
  proof (cases "y mod 4 = 0")
    case False
    with i1 i2 have "y mod 100 \<noteq> 0" "y mod 400 \<noteq> 0" by auto
    with False 4 100 400 have "q4 = p4" "q100 = p100" "q400 = p400" by simp_all
    then show ?thesis unfolding dy dy1 is_leap_def using False by (simp add: algebra_simps)
  next
    case m4: True
    show ?thesis
    proof (cases "y mod 100 = 0")
      case False
      with i1 have "y mod 400 \<noteq> 0" by auto
      with False m4 4 100 400 have "q4 = p4 + 1" "q100 = p100" "q400 = p400" by simp_all
      then show ?thesis unfolding dy dy1 is_leap_def using False m4 by (simp add: algebra_simps)
    next
      case m100: True
      show ?thesis
      proof (cases "y mod 400 = 0")
        case False
        with m100 m4 4 100 400 have "q4 = p4 + 1" "q100 = p100 + 1" "q400 = p400" by simp_all
        then show ?thesis unfolding dy dy1 is_leap_def using False m4 m100 by (simp add: algebra_simps)
      next
        case True
        with m100 m4 4 100 400 have "q4 = p4 + 1" "q100 = p100 + 1" "q400 = p400 + 1" by simp_all
        then show ?thesis unfolding dy dy1 is_leap_def using True m4 m100 by (simp add: algebra_simps)
      qed
    qed
  qed
qed

lemma days_in_month_bounds:
  assumes "1 \<le> m" "m \<le> 12"
  shows "28 \<le> days_in_month y m \<and> days_in_month y m \<le> 31"
  using assms
  by (cases m rule: month_cases) (simp_all add: days_in_month_def month_tables)

lemma days_before_month_Suc:
  assumes "1 \<le> m" "m < 12"
  shows "days_before_month y (m + 1) = days_before_month y m + days_in_month y m"
proof -
  have "1 \<le> m" "m \<le> 12" using assms by simp_all
  then show ?thesis using assms(2)
    by (cases m rule: month_cases)
      (simp_all add: days_before_month_def days_in_month_def month_tables)
qed

lemma representable_valid: "representable dt \<Longrightarrow> valid_date dt"
  by (simp add: representable_def valid_date_def check_date_fields_def)

lemma valid_next_day: "valid_date dt \<Longrightarrow> valid_date (next_day dt)"
  using days_in_month_bounds [of "month dt + 1" "year dt"] days_in_month_bounds [of 1 "year dt + 1"]
  by (auto simp: valid_date_def next_day_def)

lemma toordinal_next_day:
  assumes "valid_date dt"
  shows "toordinal (next_day dt) = toordinal dt + 1"
proof -
  from assms have m: "1 \<le> month dt" "month dt \<le> 12"
    and d: "1 \<le> day dt" "day dt \<le> days_in_month (year dt) (month dt)"
    by (simp_all add: valid_date_def)
  show ?thesis
  proof (cases "day dt < days_in_month (year dt) (month dt)")
    case True
    then show ?thesis by (simp add: next_day_def toordinal_def ymd2ord_def)
  next
    case last: False
    with d have eq: "day dt = days_in_month (year dt) (month dt)" by simp
    show ?thesis
    proof (cases "month dt < 12")
      case True
      then show ?thesis using last eq days_before_month_Suc [OF m(1) True, of "year dt"]
        by (simp add: next_day_def toordinal_def ymd2ord_def)
    next
      case False
      with m have m12: "month dt = 12" by simp
      have "days_before_month (year dt) 12 + days_in_month (year dt) 12
            = (if is_leap (year dt) then 366 else 365)"
        by (simp add: days_before_month_def days_in_month_def month_tables)
      moreover have "days_before_month (year dt + 1) 1 = 0"
        by (simp add: days_before_month_def month_tables)
      ultimately show ?thesis using last eq m12 days_before_year_Suc [of "year dt"]
        by (simp add: next_day_def toordinal_def ymd2ord_def)
    qed
  qed
qed

lemma valid_funpow_next_day: "valid_date dt \<Longrightarrow> valid_date ((next_day ^^ n) dt)"
  by (induction n) (simp_all add: valid_next_day)

lemma toordinal_funpow_next_day:
  "valid_date dt \<Longrightarrow> toordinal ((next_day ^^ n) dt) = toordinal dt + int n"
  by (induction n) (simp_all add: toordinal_next_day valid_funpow_next_day)

lemma days_before_year_mono:
  assumes "y \<le> z"
  shows "days_before_year y \<le> days_before_year z"
  using assms
proof (induction z rule: int_ge_induct)
  case base
  then show ?case by simp
next
  case (step i)
  then show ?case using days_before_year_Suc [of i] by (simp split: if_splits)
qed

lemma toordinal_range:
  assumes "representable dt"
  shows "1 \<le> toordinal dt \<and> toordinal dt \<le> MAXORDINAL"
proof -
  let ?y = "year dt" and ?m = "month dt"
  from assms have y: "1 \<le> ?y" "?y \<le> 9999" and m: "1 \<le> ?m" "?m \<le> 12"
    and d: "1 \<le> day dt" "day dt \<le> days_in_month ?y ?m"
    by (simp_all add: representable_def check_date_fields_def MINYEAR_def MAXYEAR_def)
  have lo: "days_before_year 1 \<le> days_before_year ?y" using y by (intro days_before_year_mono)
  have hi: "days_before_year (?y + 1) \<le> days_before_year 10000"
    using y by (intro days_before_year_mono) simp
  have "0 \<le> days_before_month ?y ?m" using m
    by (cases ?m rule: month_cases) (simp_all add: days_before_month_def month_tables)
  moreover have "days_before_month ?y ?m + days_in_month ?y ?m \<le> (if is_leap ?y then 366 else 365)"
    using m
    by (cases ?m rule: month_cases)
      (simp_all add: days_before_month_def days_in_month_def month_tables)
  moreover have "days_before_year 1 = 0" "days_before_year 10000 = 3652059"
    by (simp_all add: days_before_year_def)
  ultimately show ?thesis
    using lo hi d days_before_year_Suc [of ?y]
    by (simp add: toordinal_def ymd2ord_def MAXORDINAL_def split: if_splits)
qed

section \<open>The date shifter\<close>

lemma bind_outcome_Returns:
  "bind_outcome r g = Returns y \<Longrightarrow> \<exists>x. r = Returns x \<and> g x = Returns y"
  by (cases r) simp_all

lemma strptime_Returns:
  assumes "strptime s f = Returns d"
  shows "representable d" and "\<exists>ts. tokens f = Returns ts"
proof -
  from assms obtain ts where ts: "tokens f = Returns ts"
    unfolding strptime_def by (auto dest: bind_outcome_Returns)
  then show "\<exists>ts. tokens f = Returns ts" by blast
  from assms ts show "representable d"
    unfolding strptime_def representable_def
    by (auto simp: Let_def split: if_splits list.splits prod.splits option.splits)
qed

lemma strftime_total: "tokens f = Returns ts \<Longrightarrow> \<exists>s. strftime f d = Returns s"
  by (simp add: strftime_def)

lemma datetime_add_exact:
  assumes "representable d'" "toordinal d' = toordinal d + k"
  shows "datetime_add d k = Returns d'"
proof -
  from assms(1) have r: "1 \<le> toordinal d'" "toordinal d' \<le> MAXORDINAL"
    using toordinal_range by simp_all
  from assms(1) have v: "1 \<le> month d'" "month d' \<le> 12" "1 \<le> day d'"
    "day d' \<le> days_in_month (year d') (month d')"
    by (simp_all add: representable_def check_date_fields_def)
  have "ord2ymd (toordinal d') = \<lparr>year = year d', month = month d', day = day d'\<rparr>"
    unfolding toordinal_def by (rule ord2ymd_ymd2ord [OF v])
  then have "ord2ymd (toordinal d') = d'" by simp
  with r show ?thesis unfolding datetime_add_def Let_def assms(2) [symmetric] by simp
qed

lemma days_apart_toordinal:
  assumes "valid_date d" "valid_date d'" "days_apart d k d'"
  shows "toordinal d' = toordinal d + k"
proof (cases "0 \<le> k")
  case True
  with assms(3) have "(next_day ^^ nat k) d = d'" by (simp add: days_apart_def)
  then show ?thesis using toordinal_funpow_next_day [OF assms(1), of "nat k"] True by simp
next
  case False
  with assms(3) have "(next_day ^^ nat (- k)) d' = d" by (simp add: days_apart_def)
  then show ?thesis using toordinal_funpow_next_day [OF assms(2), of "nat (- k)"] False by simp
qed

text \<open>
  Claim C5. For every string \<open>s\<close> that parses strictly under the format \<open>f\<close>, to a
  date \<open>d\<close>, a shift by zero days returns the rendering of \<open>d\<close> under \<open>f\<close>: the
  text is put into the canonical form of \<open>f\<close> and the calendar date is the parsed one.
  Nothing is logged.
\<close>

theorem shift_date_zero:
  assumes "strptime s f = Returns d"
  shows "shift_date s 0 f lg = (strftime f d, lg) \<and> (\<exists>s'. strftime f d = Returns s')"
proof -
  from strptime_Returns [OF assms] obtain ts where rep: "representable d"
    and ts: "tokens f = Returns ts" by blast
  have add: "datetime_add d 0 = Returns d" by (rule datetime_add_exact [OF rep]) simp
  from strftime_total [OF ts] obtain s' where s': "strftime f d = Returns s'" by blast
  show ?thesis
    by (simp add: shift_date_def assms timedelta_def add s')
qed

subsection \<open>A rendered date parses back\<close>

text \<open>The digits that rendering writes are the digits that parsing reads.\<close>

lemma digit_char_vals:
  "digit_char 0 = CHR ''0''" "digit_char 1 = CHR ''1''" "digit_char 2 = CHR ''2''"
  "digit_char 3 = CHR ''3''" "digit_char 4 = CHR ''4''" "digit_char 5 = CHR ''5''"
  "digit_char 6 = CHR ''6''" "digit_char 7 = CHR ''7''" "digit_char 8 = CHR ''8''"
  "digit_char 9 = CHR ''9''"
  by code_simp+

lemma digit_facts:
  "digit_val CHR ''0'' = 0" "digit_val CHR ''1'' = 1" "digit_val CHR ''2'' = 2"
  "digit_val CHR ''3'' = 3" "digit_val CHR ''4'' = 4" "digit_val CHR ''5'' = 5"
  "digit_val CHR ''6'' = 6" "digit_val CHR ''7'' = 7" "digit_val CHR ''8'' = 8"
  "digit_val CHR ''9'' = 9"
  "\<not> is_space CHR ''0''" "\<not> is_space CHR ''1''" "\<not> is_space CHR ''2''"
  "\<not> is_space CHR ''3''" "\<not> is_space CHR ''4''" "\<not> is_space CHR ''5''"
  "\<not> is_space CHR ''6''" "\<not> is_space CHR ''7''" "\<not> is_space CHR ''8''"
  "\<not> is_space CHR ''9''"
  by code_simp+

lemma digit_cases:
  fixes k :: int
  assumes "0 \<le> k" "k \<le> 9"
  obtains "k = 0" | "k = 1" | "k = 2" | "k = 3" | "k = 4" | "k = 5" | "k = 6" | "k = 7"
    | "k = 8" | "k = 9"
proof -
  have "k = 0 \<or> k = 1 \<or> k = 2 \<or> k = 3 \<or> k = 4 \<or> k = 5 \<or> k = 6 \<or> k = 7 \<or> k = 8 \<or> k = 9"
    using assms by presburger
  then show ?thesis using that by blast
qed

lemma digit_char_props:
  assumes "0 \<le> k" "k \<le> 9"
  shows "digit_char k \<in> set digits \<and> digit_val (digit_char k) = k \<and> \<not> is_space (digit_char k)"
  using assms
proof (cases k rule: digit_cases)
  case 1 then show ?thesis by (simp only: digit_char_vals digit_facts digits_def) simp
next
  case 2 then show ?thesis by (simp only: digit_char_vals digit_facts digits_def) simp
next
  case 3 then show ?thesis by (simp only: digit_char_vals digit_facts digits_def) simp
next
  case 4 then show ?thesis by (simp only: digit_char_vals digit_facts digits_def) simp
next
  case 5 then show ?thesis by (simp only: digit_char_vals digit_facts digits_def) simp
next
  case 6 then show ?thesis by (simp only: digit_char_vals digit_facts digits_def) simp
next
  case 7 then show ?thesis by (simp only: digit_char_vals digit_facts digits_def) simp
next
  case 8 then show ?thesis by (simp only: digit_char_vals digit_facts digits_def) simp
next
  case 9 then show ?thesis by (simp only: digit_char_vals digit_facts digits_def) simp
next
  case 10 then show ?thesis by (simp only: digit_char_vals digit_facts digits_def) simp
qed


lemma digit_char_digit:
  assumes "0 \<le> k" "k \<le> 9"
  shows "digit_char k \<in> set digits" "digit_val (digit_char k) = k" "\<not> is_space (digit_char k)"
  using digit_char_props [OF assms] by simp_all

lemma mod10_range: "0 \<le> (n::int) mod 10" "(n::int) mod 10 \<le> 9"
proof -
  show "0 \<le> n mod 10" by simp
  have "n mod 10 < 10" by (rule pos_mod_bound) simp
  then show "n mod 10 \<le> 9" by simp
qed

lemma pad2_digits: "match_classes [digits, digits] (pad2 n @ rest)"
  by (simp add: pad2_def digit_char_digit mod10_range del: set_simps)

lemma py_int_pad2:
  assumes "0 \<le> n" "n \<le> 99"
  shows "py_int (pad2 n) = n"
proof -
  have a: "n div 10 mod 10 = n div 10"
    using assms by (intro mod_pos_pos_trivial) simp_all
  have b: "0 \<le> n div 10" "n div 10 \<le> 9" using assms by simp_all
  have "py_int (pad2 n) = 10 * (n div 10) + n mod 10"
    unfolding pad2_def a
    by (simp add: py_int_def digit_char_digit mod10_range b)
  also have "\<dots> = n" by simp
  finally show ?thesis .
qed

lemma decimal_digits: "set (decimal n) \<subseteq> set digits"
proof (induction n rule: decimal.induct)
  case (1 n)
  show ?case
  proof (cases "n < 10")
    case True
    then have "digit_char (int n) \<in> set digits" by (intro digit_char_digit) simp_all
    moreover from True have "decimal n = [digit_char (int n)]" by (subst decimal.simps) simp
    ultimately show ?thesis by (simp del: set_simps add: list.set)
  next
    case False
    have "digit_char (int (n mod 10)) \<in> set digits" by (intro digit_char_digit) simp_all
    moreover from False have "decimal n = decimal (n div 10) @ [digit_char (int (n mod 10))]"
      by (subst decimal.simps) simp
    moreover from False 1 have "set (decimal (n div 10)) \<subseteq> set digits" by simp
    ultimately show ?thesis by (simp del: set_simps add: list.set)
  qed
qed

lemma foldl_decimal: "foldl (\<lambda>a c. 10 * a + digit_val c) 0 (decimal n) = int n"
proof (induction n rule: decimal.induct)
  case (1 n)
  show ?case
  proof (cases "n < 10")
    case True
    then have "digit_val (digit_char (int n)) = int n" by (intro digit_char_digit) simp_all
    moreover from True have "decimal n = [digit_char (int n)]" by (subst decimal.simps) simp
    ultimately show ?thesis by simp
  next
    case False
    have "digit_val (digit_char (int (n mod 10))) = int (n mod 10)"
      by (intro digit_char_digit) simp_all
    moreover from False have "decimal n = decimal (n div 10) @ [digit_char (int (n mod 10))]"
      by (subst decimal.simps) simp
    moreover from False 1
    have "foldl (\<lambda>a c. 10 * a + digit_val c) 0 (decimal (n div 10)) = int (n div 10)" by simp
    ultimately show ?thesis by (simp add: zmod_int zdiv_int)
  qed
qed

lemma decimal_nonempty: "decimal n \<noteq> []"
  by (subst decimal.simps) simp

lemma no_space_in_digits: "c \<in> set digits \<Longrightarrow> \<not> is_space c"
  by (auto simp: digits_def digit_facts)

lemma py_int_decimal: "py_int (decimal n) = int n"
proof -
  obtain c cs where d: "decimal n = c # cs" using decimal_nonempty [of n] by (cases "decimal n") auto
  with decimal_digits [of n] have "\<not> is_space c" by (intro no_space_in_digits) auto
  with d have "dropWhile is_space (decimal n) = decimal n" by simp
  then show ?thesis by (simp add: py_int_def foldl_decimal)
qed

lemma length_decimal4:
  assumes "1000 \<le> n" "n \<le> 9999"
  shows "length (decimal n) = 4"
proof -
  have 1: "\<not> n < 10" "\<not> n div 10 < 10" "\<not> n div 10 div 10 < 10" "n div 10 div 10 div 10 < 10"
    using assms by arith+
  show ?thesis
    by (subst decimal.simps, simp only: 1 if_False, subst decimal.simps, simp only: 1 if_False,
        subst decimal.simps, simp only: 1 if_False, subst decimal.simps, simp only: 1 if_True)
       simp
qed


lemma pad2_vals:
  "pad2 1 = ''01''" "pad2 2 = ''02''" "pad2 3 = ''03''" "pad2 4 = ''04''" "pad2 5 = ''05''" "pad2 6 = ''06''" "pad2 7 = ''07''" "pad2 8 = ''08''" "pad2 9 = ''09''" "pad2 10 = ''10''" "pad2 11 = ''11''" "pad2 12 = ''12''" "pad2 13 = ''13''" "pad2 14 = ''14''" "pad2 15 = ''15''" "pad2 16 = ''16''" "pad2 17 = ''17''" "pad2 18 = ''18''" "pad2 19 = ''19''" "pad2 20 = ''20''" "pad2 21 = ''21''" "pad2 22 = ''22''" "pad2 23 = ''23''" "pad2 24 = ''24''" "pad2 25 = ''25''" "pad2 26 = ''26''" "pad2 27 = ''27''" "pad2 28 = ''28''" "pad2 29 = ''29''" "pad2 30 = ''30''" "pad2 31 = ''31''"
  by code_simp+

lemma day_cases:
  fixes d :: int
  assumes "1 \<le> d" "d \<le> 31"
  obtains "d = 1" | "d = 2" | "d = 3" | "d = 4" | "d = 5" | "d = 6" | "d = 7" | "d = 8" | "d = 9" | "d = 10" | "d = 11" | "d = 12" | "d = 13" | "d = 14" | "d = 15" | "d = 16" | "d = 17" | "d = 18" | "d = 19" | "d = 20" | "d = 21" | "d = 22" | "d = 23" | "d = 24" | "d = 25" | "d = 26" | "d = 27" | "d = 28" | "d = 29" | "d = 30" | "d = 31"
proof -
  have "d = 1 \<or> d = 2 \<or> d = 3 \<or> d = 4 \<or> d = 5 \<or> d = 6 \<or> d = 7 \<or> d = 8 \<or> d = 9 \<or> d = 10 \<or> d = 11 \<or> d = 12 \<or> d = 13 \<or> d = 14 \<or> d = 15 \<or> d = 16 \<or> d = 17 \<or> d = 18 \<or> d = 19 \<or> d = 20 \<or> d = 21 \<or> d = 22 \<or> d = 23 \<or> d = 24 \<or> d = 25 \<or> d = 26 \<or> d = 27 \<or> d = 28 \<or> d = 29 \<or> d = 30 \<or> d = 31"
    using assms by presburger
  then show ?thesis using that by blast
qed

lemma group_month:
  assumes "1 \<le> m" "m \<le> 12" and "regex_match R rest = (g, u) # ms"
  shows "\<exists>ms'. regex_match (Group D_m # R) (pad2 m @ rest) = ((D_m, pad2 m) # g, u) # ms'"
  using assms(1,2)
  by (cases m rule: month_cases) (simp_all add: pad2_vals nonzero_def assms(3))

lemma group_day:
  assumes "1 \<le> d" "d \<le> 31" and "regex_match R rest = (g, u) # ms"
  shows "\<exists>ms'. regex_match (Group D_d # R) (pad2 d @ rest) = ((D_d, pad2 d) # g, u) # ms'"
  using assms(1,2)
  by (cases d rule: day_cases) (simp_all add: pad2_vals nonzero_def digits_def assms(3))

lemma group_year2:
  assumes "regex_match R rest = (g, u) # ms"
  shows "\<exists>ms'. regex_match (Group D_y # R) (pad2 n @ rest) = ((D_y, pad2 n) # g, u) # ms'"
proof -
  have "digit_char (n div 10 mod 10) \<in> set digits" "digit_char (n mod 10) \<in> set digits"
    by (intro digit_char_digit mod10_range)+
  then show ?thesis by (simp add: pad2_def assms del: set_simps)
qed

lemma group_year4:
  assumes "1000 \<le> n" "n \<le> 9999" and "regex_match R rest = (g, u) # ms"
  shows "\<exists>ms'. regex_match (Group D_Y # R) (decimal n @ rest) = ((D_Y, decimal n) # g, u) # ms'"
proof -
  from length_decimal4 [OF assms(1,2)] obtain a b c d where abcd: "decimal n = [a, b, c, d]"
    by (auto simp: length_Suc_conv numeral_eq_Suc)
  with decimal_digits [of n] have "a \<in> set digits" "b \<in> set digits" "c \<in> set digits" "d \<in> set digits"
    by simp_all
  then show ?thesis by (simp add: abcd assms(3) del: set_simps)
qed


lemma spaces_cons:
  assumes "is_space c"
  shows "regex_match (Spaces # R) (c # s) = regex_match (Spaces # R) s @ regex_match R s"
proof -
  let ?n = "length (takeWhile is_space s)"
  have "[1 ..< Suc (Suc ?n)] = map Suc [0 ..< Suc ?n]" by (simp only: map_Suc_upt One_nat_def)
  also have "[0 ..< Suc ?n] = 0 # [1 ..< Suc ?n]" by (simp add: upt_rec)
  finally have "rev [1 ..< Suc (Suc ?n)] = map Suc (rev [1 ..< Suc ?n]) @ [Suc 0]"
    by (simp add: rev_map)
  with assms show ?thesis by (simp add: comp_def del: upt_Suc)
qed

lemma spaces_single:
  assumes "is_space c" and "s = [] \<or> \<not> is_space (hd s)"
  shows "regex_match (Spaces # R) (c # s) = regex_match R s"
proof -
  from assms(2) have "takeWhile is_space s = []" by (cases s) auto
  with assms(1) show ?thesis by simp
qed

lemma merge_spaces_Spaces: "\<exists>R. merge_spaces (Spaces # r) = Spaces # R"
proof (induction r)
  case Nil
  show ?case by simp
next
  case (Cons x r)
  then show ?case by (cases x) simp_all
qed

lemma render_directive_start:
  "\<exists>x xs. render dt (Directive D) = x # xs \<and> \<not> is_space x"
proof (cases D)
  case D_Y
  obtain x xs where d: "decimal (nat (year dt)) = x # xs"
    using decimal_nonempty [of "nat (year dt)"] by (cases "decimal (nat (year dt))") auto
  with decimal_digits [of "nat (year dt)"] have "\<not> is_space x" by (intro no_space_in_digits) auto
  with d D_Y show ?thesis by simp
next
  case D_m
  then show ?thesis by (simp add: pad2_def digit_char_digit mod10_range)
next
  case D_d
  then show ?thesis by (simp add: pad2_def digit_char_digit mod10_range)
next
  case D_y
  then show ?thesis by (simp add: pad2_def digit_char_digit mod10_range)
qed

lemma spaces_literal:
  assumes "is_space c"
    and "regex_match (merge_spaces (re_items ts)) (concat (map (render dt) ts)) = h # ms"
  shows "\<exists>ms'. regex_match (merge_spaces (Spaces # re_items ts)) (c # concat (map (render dt) ts))
           = h # ms'"
proof (cases ts)
  case Nil
  with assms show ?thesis by (simp add: spaces_single)
next
  case (Cons t ts')
  show ?thesis
  proof (cases t)
    case (Directive D)
    from render_directive_start [of dt D] obtain x xs
      where x: "render dt (Directive D) = x # xs" "\<not> is_space x" by blast
    have m: "merge_spaces (Spaces # re_items ts) = Spaces # merge_spaces (re_items ts)"
      by (simp add: Cons Directive)
    have "regex_match (Spaces # merge_spaces (re_items ts)) (c # concat (map (render dt) ts))
            = regex_match (merge_spaces (re_items ts)) (concat (map (render dt) ts))"
      by (rule spaces_single [OF assms(1)]) (simp add: Cons Directive x)
    with assms(2) m show ?thesis by simp
  next
    case (Literal c')
    show ?thesis
    proof (cases "is_space c'")
      case True
      have m: "merge_spaces (Spaces # re_items ts) = merge_spaces (re_items ts)"
        by (simp add: Cons Literal True)
      from merge_spaces_Spaces [of "re_items ts'"] obtain R
        where R: "merge_spaces (re_items ts) = Spaces # R" by (auto simp: Cons Literal True)
      from assms(2) show ?thesis unfolding m R by (simp only: spaces_cons [OF assms(1)]) simp
    next
      case False
      have m: "merge_spaces (Spaces # re_items ts) = Spaces # merge_spaces (re_items ts)"
        by (simp add: Cons Literal False)
      have "regex_match (Spaces # merge_spaces (re_items ts)) (c # concat (map (render dt) ts))
              = regex_match (merge_spaces (re_items ts)) (concat (map (render dt) ts))"
        by (rule spaces_single [OF assms(1)]) (simp add: Cons Literal False)
      with assms(2) m show ?thesis by simp
    qed
  qed
qed

lemma regex_match_render:
  assumes "1 \<le> month dt" "month dt \<le> 12" "1 \<le> day dt" "day dt \<le> 31"
    and "D_Y \<in> set (directives_of ts) \<Longrightarrow> 1000 \<le> year dt \<and> year dt \<le> 9999"
  shows "\<exists>ms. regex_match (merge_spaces (re_items ts)) (concat (map (render dt) ts))
           = (map (\<lambda>D. (D, render dt (Directive D))) (directives_of ts), []) # ms"
  using assms(5)
proof (induction ts)
  case Nil
  show ?case by simp
next
  case (Cons t ts)
  show ?case
  proof (cases t)
    case (Directive D)
    from Cons obtain ms where ih: "regex_match (merge_spaces (re_items ts)) (concat (map (render dt) ts))
           = (map (\<lambda>D. (D, render dt (Directive D))) (directives_of ts), []) # ms"
      by (auto simp: Directive)
    have "\<exists>ms'. regex_match (Group D # merge_spaces (re_items ts))
                   (render dt (Directive D) @ concat (map (render dt) ts))
           = ((D, render dt (Directive D)) # map (\<lambda>D. (D, render dt (Directive D))) (directives_of ts), []) # ms'"
    proof (cases D)
      case D_Y
      with Cons.prems Directive have "1000 \<le> year dt \<and> year dt \<le> 9999" by simp
      then have "1000 \<le> nat (year dt)" "nat (year dt) \<le> 9999" by arith+
      from group_year4 [OF this ih] D_Y show ?thesis by simp
    next
      case D_m
      from group_month [OF assms(1,2) ih] D_m show ?thesis by simp
    next
      case D_d
      from group_day [OF assms(3,4) ih] D_d show ?thesis by simp
    next
      case D_y
      from group_year2 [OF ih] D_y show ?thesis by simp
    qed
    then show ?thesis by (simp add: Directive)
  next
    case (Literal c)
    from Cons obtain ms where ih: "regex_match (merge_spaces (re_items ts)) (concat (map (render dt) ts))
           = (map (\<lambda>D. (D, render dt (Directive D))) (directives_of ts), []) # ms"
      by (auto simp: Literal)
    show ?thesis
    proof (cases "is_space c")
      case True
      from spaces_literal [OF True ih] show ?thesis by (simp add: Literal True)
    next
      case False
      with ih show ?thesis by (simp add: Literal)
    qed
  qed
qed


lemma two_digit_year:
  assumes "1969 \<le> y" "y \<le> 2068"
  shows "(let v = py_int (pad2 (y mod 100)) in if v \<le> 68 then v + 2000 else v + 1900) = y"
proof -
  have r: "0 \<le> y mod 100" "y mod 100 \<le> 99"
  proof -
    show "0 \<le> y mod 100" by simp
    have "y mod 100 < 100" by (rule pos_mod_bound) simp
    then show "y mod 100 \<le> 99" by simp
  qed
  have v: "py_int (pad2 (y mod 100)) = y mod 100" by (rule py_int_pad2 [OF r])
  show ?thesis
  proof (cases "y < 2000")
    case True
    have "y mod 100 = y - 1900"
      by (rule int_mod_pos_eq [where q = 19]) (use True assms in auto)
    with assms show ?thesis unfolding v Let_def by simp
  next
    case False
    have "y mod 100 = y - 2000"
      by (rule int_mod_pos_eq [where q = 20]) (use False assms in auto)
    with assms show ?thesis unfolding v Let_def by simp
  qed
qed

lemma fold_assign_render:
  assumes "0 \<le> month dt" "month dt \<le> 99" "0 \<le> day dt" "day dt \<le> 99" "0 \<le> year dt"
    and "D_y \<in> set ds \<Longrightarrow> 1969 \<le> year dt \<and> year dt \<le> 2068"
  shows "fold assign_group (map (\<lambda>D. (D, render dt (Directive D))) ds) (y0, m0, d0)
           = (if D_Y \<in> set ds \<or> D_y \<in> set ds then Some (year dt) else y0,
              if D_m \<in> set ds then month dt else m0,
              if D_d \<in> set ds then day dt else d0)"
  using assms(6)
proof (induction ds arbitrary: y0 m0 d0)
  case Nil
  show ?case by simp
next
  case (Cons D ds)
  have ih: "fold assign_group (map (\<lambda>D. (D, render dt (Directive D))) ds) (y, m, d)
           = (if D_Y \<in> set ds \<or> D_y \<in> set ds then Some (year dt) else y,
              if D_m \<in> set ds then month dt else m,
              if D_d \<in> set ds then day dt else d)" for y m d
    using Cons by simp
  show ?case
  proof (cases D)
    case D_Y
    have "assign_group (D_Y, render dt (Directive D_Y)) (y0, m0, d0) = (Some (year dt), m0, d0)"
      using assms(5) by (simp add: py_int_decimal)
    with D_Y show ?thesis by (simp add: ih)
  next
    case D_m
    have "assign_group (D_m, render dt (Directive D_m)) (y0, m0, d0) = (y0, month dt, d0)"
      by (simp add: py_int_pad2 [OF assms(1,2)])
    with D_m show ?thesis by (simp add: ih)
  next
    case D_d
    have "assign_group (D_d, render dt (Directive D_d)) (y0, m0, d0) = (y0, m0, day dt)"
      by (simp add: py_int_pad2 [OF assms(3,4)])
    with D_d show ?thesis by (simp add: ih)
  next
    case D_y
    with Cons.prems have "1969 \<le> year dt" "year dt \<le> 2068" by simp_all
    from two_digit_year [OF this]
    have "assign_group (D_y, render dt (Directive D_y)) (y0, m0, d0) = (Some (year dt), m0, d0)"
      by (simp add: Let_def)
    with D_y show ?thesis by (simp add: ih)
  qed
qed

lemma not_leap_1900: "\<not> check_date_fields 1900 2 29"
  by code_simp

lemma strptime_strftime:
  assumes "expressible f d" and "representable d" and "strftime f d = Returns s"
  shows "strptime s f = Returns d"
proof -
  from assms(1) obtain ts where ts: "tokens f = Returns ts"
    by (auto simp: expressible_def split: outcome.splits)
  let ?ds = "directives_of ts"
  from assms(1) ts have dist: "distinct ?ds"
    and Y: "D_Y \<in> set ?ds \<Longrightarrow> 1000 \<le> year d"
    and y: "D_y \<in> set ?ds \<Longrightarrow> 1969 \<le> year d \<and> year d \<le> 2068"
    and noyear: "D_Y \<notin> set ?ds \<Longrightarrow> D_y \<notin> set ?ds \<Longrightarrow> year d = 1900"
    and nomonth: "D_m \<notin> set ?ds \<Longrightarrow> month d = 1"
    and noday: "D_d \<notin> set ?ds \<Longrightarrow> day d = 1"
    by (simp_all add: expressible_def Let_def)
  from assms(2) have chk: "check_date_fields (year d) (month d) (day d)"
    by (simp add: representable_def)
  then have rng: "1 \<le> year d" "year d \<le> 9999" "1 \<le> month d" "month d \<le> 12" "1 \<le> day d"
    "day d \<le> days_in_month (year d) (month d)"
    by (simp_all add: check_date_fields_def MINYEAR_def MAXYEAR_def)
  from days_in_month_bounds [OF rng(3,4), of "year d"] rng(6) have d31: "day d \<le> 31" by simp
  from assms(3) ts have s: "s = concat (map (render d) ts)" by (simp add: strftime_def)
  have "\<exists>ms. regex_match (merge_spaces (re_items ts)) (concat (map (render d) ts))
           = (map (\<lambda>D. (D, render d (Directive D))) ?ds, []) # ms"
    by (rule regex_match_render [OF rng(3,4,5) d31]) (use Y rng(2) in simp)
  then obtain ms where rm: "regex_match (merge_spaces (re_items ts)) s
           = (map (\<lambda>D. (D, render d (Directive D))) ?ds, []) # ms"
    unfolding s by blast
  have fa: "fold assign_group (map (\<lambda>D. (D, render d (Directive D))) ?ds) (None, 1, 1)
           = (if D_Y \<in> set ?ds \<or> D_y \<in> set ?ds then Some (year d) else None, month d, day d)"
    using nomonth noday
    by (subst fold_assign_render) (use rng d31 y in auto)
  show ?thesis
  proof (cases "D_Y \<in> set ?ds \<or> D_y \<in> set ?ds")
    case True
    then have fa': "fold assign_group (map (\<lambda>D. (D, render d (Directive D))) ?ds) (None, 1, 1)
           = (Some (year d), month d, day d)"
      using fa by simp
    show ?thesis
      unfolding strptime_def ts
      by (simp add: dist rm fa' chk)
  next
    case False
    then have fa': "fold assign_group (map (\<lambda>D. (D, render d (Directive D))) ?ds) (None, 1, 1)
           = (None, month d, day d)"
      using fa by simp
    from False noyear have y1900: "year d = 1900" by simp
    from chk y1900 not_leap_1900 have nofix: "(month d = 2 \<and> day d = 29) = False" by auto
    from chk y1900 have chk': "check_date_fields 1900 (month d) (day d)" by simp
    have d_eq: "\<lparr>year = 1900, month = month d, day = day d\<rparr> = d" using y1900 by simp
    show ?thesis
      unfolding strptime_def ts
      by (simp add: dist rm fa' chk' d_eq nofix)
  qed
qed

text \<open>The bounds in \<open>expressible\<close> are needed: the C library writes the year 999
  with three digits, which \<^verbatim>\<open>%Y\<close> does not read, and the two digits of 1950 are
  read as 2050.\<close>

lemma inexpressible_examples:
  "strftime ''%Y-%m-%d'' \<lparr>year = 999, month = 1, day = 1\<rparr> = Returns ''999-01-01''"
  "strptime ''999-01-01'' ''%Y-%m-%d'' = Raises ValueError"
  "strftime ''%d/%m/%y'' \<lparr>year = 1950, month = 1, day = 1\<rparr> = Returns ''01/01/50''"
  "strptime ''01/01/50'' ''%d/%m/%y'' = Returns \<lparr>year = 2050, month = 1, day = 1\<rparr>"
  by code_simp+

subsection \<open>Shifting by whole days\<close>

text \<open>
  Claim C1. Let \<open>d\<close> be a date that a \<^verbatim>\<open>datetime\<close> value can hold and that the
  format \<open>f\<close> expresses, and let \<open>d'\<close> be a representable date exactly \<open>k\<close>
  calendar days from \<open>d\<close>, counted by single steps of the calendar with its month
  lengths, year ends and leap years. Then both dates have a rendering under \<open>f\<close>, and
  shifting the rendering of \<open>d\<close> by \<open>k\<close> returns the rendering of \<open>d'\<close>; nothing
  is logged.
\<close>

theorem shift_date_days:
  assumes "expressible f d" and "representable d" and "representable d'"
    and "days_apart d k d'"
  shows "\<exists>s s'. strftime f d = Returns s \<and> strftime f d' = Returns s'
           \<and> shift_date s k f lg = (Returns s', lg)"
proof -
  from assms(1) obtain ts where ts: "tokens f = Returns ts"
    by (auto simp: expressible_def split: outcome.splits)
  from strftime_total [OF ts] obtain s where s: "strftime f d = Returns s" by blast
  from strftime_total [OF ts] obtain s' where s': "strftime f d' = Returns s'" by blast
  have parse: "strptime s f = Returns d" by (rule strptime_strftime [OF assms(1,2) s])
  have ord: "toordinal d' = toordinal d + k"
    using assms(2,3,4) by (intro days_apart_toordinal representable_valid)
  have "1 \<le> toordinal d" "toordinal d \<le> MAXORDINAL" "1 \<le> toordinal d'" "toordinal d' \<le> MAXORDINAL"
    using toordinal_range assms(2,3) by simp_all
  with ord have "\<bar>k\<bar> \<le> 999999999" by (simp add: MAXORDINAL_def)
  then have td: "timedelta k = Returns k" by (simp add: timedelta_def)
  have add: "datetime_add d k = Returns d'" by (rule datetime_add_exact [OF assms(3) ord])
  have "shift_date s k f lg = (Returns s', lg)"
    by (simp add: shift_date_def parse td add s')
  with s s' show ?thesis by blast
qed

text \<open>Witness for C5: a date written without zero padding comes back padded, the same
  day.\<close>

theorem shift_date_zero_witness:
  "strptime ''2023-1-5'' ''%Y-%m-%d'' = Returns \<lparr>year = 2023, month = 1, day = 5\<rparr>
   \<and> shift_date ''2023-1-5'' 0 ''%Y-%m-%d'' [] = (Returns ''2023-01-05'', [])"
proof -
  have h: "strptime ''2023-1-5'' ''%Y-%m-%d'' = Returns \<lparr>year = 2023, month = 1, day = 5\<rparr>"
    by code_simp
  have r: "strftime ''%Y-%m-%d'' \<lparr>year = 2023, month = 1, day = 5\<rparr> = Returns ''2023-01-05''"
    by code_simp
  from shift_date_zero [OF h, of "[]"] r h show ?thesis by simp
qed

text \<open>Witness for C1: two days after 28 February of a leap year.\<close>

theorem shift_date_days_witness:
  "expressible ''%d/%m/%Y'' \<lparr>year = 2024, month = 2, day = 28\<rparr>
   \<and> representable \<lparr>year = 2024, month = 2, day = 28\<rparr>
   \<and> representable \<lparr>year = 2024, month = 3, day = 1\<rparr>
   \<and> days_apart \<lparr>year = 2024, month = 2, day = 28\<rparr> 2 \<lparr>year = 2024, month = 3, day = 1\<rparr>
   \<and> strftime ''%d/%m/%Y'' \<lparr>year = 2024, month = 2, day = 28\<rparr> = Returns ''28/02/2024''
   \<and> strftime ''%d/%m/%Y'' \<lparr>year = 2024, month = 3, day = 1\<rparr> = Returns ''01/03/2024''
   \<and> shift_date ''28/02/2024'' 2 ''%d/%m/%Y'' [] = (Returns ''01/03/2024'', [])"
proof -
  have 0: "expressible ''%d/%m/%Y'' \<lparr>year = 2024, month = 2, day = 28\<rparr>" by code_simp
  have 1: "representable \<lparr>year = 2024, month = 2, day = 28\<rparr>" by code_simp
  have 2: "representable \<lparr>year = 2024, month = 3, day = 1\<rparr>" by code_simp
  have 3: "days_apart \<lparr>year = 2024, month = 2, day = 28\<rparr> 2 \<lparr>year = 2024, month = 3, day = 1\<rparr>"
    by code_simp
  have 4: "strftime ''%d/%m/%Y'' \<lparr>year = 2024, month = 2, day = 28\<rparr> = Returns ''28/02/2024''"
    by code_simp
  have 5: "strftime ''%d/%m/%Y'' \<lparr>year = 2024, month = 3, day = 1\<rparr> = Returns ''01/03/2024''"
    by code_simp
  from shift_date_days [OF 0 1 2 3, of "[]"] 4 5
  have "shift_date ''28/02/2024'' 2 ''%d/%m/%Y'' [] = (Returns ''01/03/2024'', [])" by simp
  with 0 1 2 3 4 5 show ?thesis by blast
qed

lemma tokens_Raises: "tokens g = Raises e \<Longrightarrow> e = ValueError"
proof (induction g arbitrary: e rule: tokens.induct)
  case 1
  then show ?case by simp
next
  case (2 c rest)
  then show ?case
    by (auto split: if_splits list.splits elim!: bind_outcome.elims)
qed

lemma strptime_Raises:
  assumes "\<not> repeats_directive f" and "strptime s f = Raises e"
  shows "e = ValueError"
proof (cases "tokens f")
  case (Returns ts)
  with assms(1) have "distinct (directives_of ts)" by (simp add: repeats_directive_def)
  with assms(2) Returns show ?thesis
    unfolding strptime_def
    by (auto simp: Let_def split: if_splits list.splits prod.splits option.splits)
next
  case (Raises e')
  with assms(2) tokens_Raises [OF Raises] show ?thesis by (simp add: strptime_def)
next
  case Unmodelled
  with assms(2) show ?thesis by (simp add: strptime_def)
qed

lemma strptime_Unmodelled: "modelled f \<Longrightarrow> strptime s f \<noteq> Unmodelled"
  unfolding strptime_def modelled_def
  by (auto simp: Let_def split: outcome.splits if_splits list.splits prod.splits option.splits)

text \<open>
  Where the handler does what its comment says (``return original string if parsing
  fails''): under a modelled format in which no directive occurs twice, every failure of
  \<^verbatim>\<open>strptime\<close> is a \<^verbatim>\<open>ValueError\<close>, so a string that does not parse is
  returned unchanged, with one warning.
\<close>

lemma shift_date_unparsed:
  assumes "modelled f" and "\<not> repeats_directive f" and "\<not> parses s f"
  shows "shift_date s k f lg = (Returns s, lg @ [Warning s])"
proof (cases "strptime s f")
  case (Returns d)
  with assms(3) show ?thesis by (simp add: parses_def)
next
  case (Raises e)
  with strptime_Raises [OF assms(2)] have "strptime s f = Raises ValueError" by simp
  then show ?thesis by (simp add: shift_date_def)
next
  case Unmodelled
  with strptime_Unmodelled [OF assms(1)] show ?thesis by simp
qed

text \<open>For instance month 13 under the default format.\<close>

lemma shift_date_unparsed_example:
  "modelled ''%Y-%m-%d'' \<and> \<not> repeats_directive ''%Y-%m-%d'' \<and> \<not> parses ''2023-13-40'' ''%Y-%m-%d''
   \<and> shift_date ''2023-13-40'' 7 ''%Y-%m-%d'' [] = (Returns ''2023-13-40'', [Warning ''2023-13-40''])"
proof -
  have 1: "modelled ''%Y-%m-%d''" by code_simp
  have 2: "\<not> repeats_directive ''%Y-%m-%d''" by code_simp
  have 3: "\<not> parses ''2023-13-40'' ''%Y-%m-%d''" by code_simp
  from shift_date_unparsed [OF 1 2 3, of 7 "[]"] 1 2 3 show ?thesis by simp
qed

text \<open>
  Claim C2 says that \<^verbatim>\<open>shift_date\<close> returns every string that does not parse
  strictly under the format unchanged, raising nothing. The code does not: under the
  format \<^verbatim>\<open>%d%d\<close> the string \<^verbatim>\<open>0101\<close> does not parse, because the library
  cannot compile a format that uses a directive twice and fails with
  \<^verbatim>\<open>re.error\<close>. That is no \<^verbatim>\<open>ValueError\<close>, so the handler does not
  catch it and no string is returned.
\<close>

theorem shift_date_repeated_directive:
  "\<not> parses ''0101'' ''%d%d'' \<and> shift_date ''0101'' 1 ''%d%d'' [] = (Raises ReError, [])"
  by code_simp

section \<open>The content transformer\<close>

text \<open>
  Claim C4. Scanning the example string yields exactly the four candidates
  \<^verbatim>\<open>2023-12-31\<close>, \<^verbatim>\<open>31/12/99\<close>, \<^verbatim>\<open>31-12-2023\<close>,
  \<^verbatim>\<open>2023-13-40\<close>, in that order. At \<^verbatim>\<open>31-12-2023\<close> the second and the
  third shape both match and the second, which comes first, decides: the match has ten
  characters.
\<close>

theorem scanner_example:
  "re_findall ''start 2023-12-31 mid 31/12/99 end 31-12-2023 tail 2023-13-40 done''
     = [''2023-12-31'', ''31/12/99'', ''31-12-2023'', ''2023-13-40'']
   \<and> first_match date_pattern ''31-12-2023 tail 2023-13-40 done'' = Some 10
   \<and> match_classes (date_pattern ! 2) ''31-12-2023 tail 2023-13-40 done''"
  by code_simp

text \<open>
  Claim C7. In the content \<^verbatim>\<open>2023-01-01 2023-01-02\<close> with offset 1 the shifted
  form of the first candidate is the text of the second candidate. The replacement for
  the second candidate then also rewrites what the first replacement produced: both
  dates end as \<^verbatim>\<open>2023-01-03\<close>, the first one shifted by twice the offset.
\<close>

theorem cascade_example:
  "re_findall ''2023-01-01 2023-01-02'' = [''2023-01-01'', ''2023-01-02'']
   \<and> shift_date ''2023-01-01'' 1 ''%Y-%m-%d'' [] = (Returns ''2023-01-02'', [])
   \<and> transform ''2023-01-01 2023-01-02'' 1 ''%Y-%m-%d'' [] = (Returns ''2023-01-03 2023-01-03'', [])
   \<and> shift_date ''2023-01-01'' (2 * 1) ''%Y-%m-%d'' [] = (Returns ''2023-01-03'', [])"
  by code_simp

text \<open>
  Claim C8. The content \<^verbatim>\<open>Meeting on 2023-01-15 and follow-up 2023-01-20.\<close> with
  the default format and offset 10 becomes
  \<^verbatim>\<open>Meeting on 2023-01-25 and follow-up 2023-01-30.\<close>, and nothing is logged.
\<close>

theorem meeting_example:
  "transform ''Meeting on 2023-01-15 and follow-up 2023-01-20.'' 10 ''%Y-%m-%d'' []
     = (Returns ''Meeting on 2023-01-25 and follow-up 2023-01-30.'', [])"
  by code_simp

text \<open>
  Claim C9. The candidate \<^verbatim>\<open>9999-12-31\<close> parses under the default format, and
  with offset 1 the addition raises \<^verbatim>\<open>OverflowError\<close>, which
  \<^verbatim>\<open>shift_date\<close> does not catch: the candidate is not returned unchanged, the
  exception ends the loop and reaches the handler of \<^verbatim>\<open>process_file\<close>, which
  logs an error and writes no file.
\<close>

theorem overflow_escapes:
  "parses ''9999-12-31'' ''%Y-%m-%d''
   \<and> shift_date ''9999-12-31'' 1 ''%Y-%m-%d'' [] = (Raises OverflowError, [])
   \<and> transform ''due 9999-12-31'' 1 ''%Y-%m-%d'' [] = (Raises OverflowError, [])
   \<and> process_file ''in.txt'' 1 (Some ''out'') ''%Y-%m-%d''
        ([''in.txt'' \<mapsto> Text ''due 9999-12-31''], [])
      = Returns ([''in.txt'' \<mapsto> Text ''due 9999-12-31''], [Error ''in.txt''])"
proof -
  have 1: "parses ''9999-12-31'' ''%Y-%m-%d''" by code_simp
  have 2: "shift_date ''9999-12-31'' 1 ''%Y-%m-%d'' [] = (Raises OverflowError, [])"
    by code_simp
  have 3: "transform ''due 9999-12-31'' 1 ''%Y-%m-%d'' [] = (Raises OverflowError, [])"
    by code_simp
  have 4: "process_file ''in.txt'' 1 (Some ''out'') ''%Y-%m-%d''
        ([''in.txt'' \<mapsto> Text ''due 9999-12-31''], [])
      = Returns ([''in.txt'' \<mapsto> Text ''due 9999-12-31''], [Error ''in.txt''])"
    by (simp add: process_file_def 3)
  from 1 2 3 4 show ?thesis by blast
qed

text \<open>
  Claim C10. In \<^verbatim>\<open>12023-12-310\<close> the date shape sits inside a longer run of
  digits. The scanner yields it all the same and the transformer rewrites it in place:
  the token becomes \<^verbatim>\<open>12024-01-010\<close>.
\<close>

theorem embedded_example:
  "re_findall ''12023-12-310'' = [''2023-12-31'']
   \<and> transform ''12023-12-310'' 1 ''%Y-%m-%d'' [] = (Returns ''12024-01-010'', [])"
  by code_simp

section \<open>What the transformer leaves untouched\<close>

lemma prefix_append_notin:
  assumes "x \<notin> set old"
  shows "prefix old (a @ x # b) \<longleftrightarrow> prefix old a"
proof
  assume "prefix old (a @ x # b)"
  then consider "prefix old a" | us where "old = a @ us" "prefix us (x # b)"
    by (auto simp: prefix_append)
  then show "prefix old a"
  proof cases
    case 1
    then show ?thesis .
  next
    case 2
    with assms have "us = []" by (cases us) auto
    with 2 show ?thesis by simp
  qed
next
  assume "prefix old a"
  then show "prefix old (a @ x # b)" by (rule prefix_prefix)
qed

lemma replace_scan_frame_char:
  assumes "old \<noteq> []" and "x \<notin> set old"
  shows "replace_scan old new (a @ x # b) = replace_scan old new a @ x # replace_scan old new b"
  using assms
proof (induction old new a rule: replace_scan.induct)
  case (1 old new)
  then have "\<not> prefix old (x # b)" by (cases old) auto
  then show ?case by simp
next
  case (2 old new c cs)
  show ?case
  proof (cases "prefix old (c # cs)")
    case True
    then have len: "length old - 1 \<le> length cs" by (auto dest: prefix_length_le)
    from True have p: "prefix old ((c # cs) @ x # b)" by (rule prefix_prefix)
    have "replace_scan old new (drop (length old - 1) cs @ x # b) =
          replace_scan old new (drop (length old - 1) cs) @ x # replace_scan old new b"
      using 2 True by simp
    with True p len show ?thesis by simp
  next
    case False
    then have "\<not> prefix old ((c # cs) @ x # b)"
      using prefix_append_notin [OF 2(4), of "c # cs" b] by simp
    with False 2 show ?thesis by simp
  qed
qed

lemma match_classes_take:
  "match_classes cls s \<Longrightarrow>
     length cls \<le> length s \<and> (\<forall>i < length cls. s ! i \<in> set (cls ! i))"
proof (induction cls s rule: match_classes.induct)
  case (1 s)
  then show ?case by simp
next
  case (2 cl cls)
  then show ?case by simp
next
  case (3 cl cls c s)
  then show ?case by (auto simp: nth_Cons split: nat.splits)
qed

lemma date_pattern_classes:
  assumes "alt \<in> set date_pattern" and "i < length alt"
  shows "set (alt ! i) \<subseteq> Collect is_date_char"
proof -
  have "\<forall>alt \<in> set date_pattern. \<forall>cl \<in> set alt. set cl \<subseteq> set (digits @ ''/-'')"
    by (auto simp: date_pattern_def)
  moreover from assms(2) have "alt ! i \<in> set alt" by simp
  ultimately have "set (alt ! i) \<subseteq> set (digits @ ''/-'')" using assms(1) by blast
  then show ?thesis
    unfolding is_date_char_def by blast
qed

lemma first_match_Some:
  "first_match alts s = Some n \<Longrightarrow> \<exists>alt \<in> set alts. match_classes alt s \<and> n = length alt"
  by (induction alts) (auto split: if_splits)

lemma first_match_date_pattern:
  assumes "first_match date_pattern s = Some n"
  shows "0 < n \<and> n \<le> length s \<and> (\<forall>ch \<in> set (take n s). is_date_char ch)"
proof -
  from first_match_Some [OF assms] obtain alt where alt: "alt \<in> set date_pattern"
    and m: "match_classes alt s" and n: "n = length alt" by blast
  from match_classes_take [OF m] have len: "length alt \<le> length s"
    and cls: "\<forall>i < length alt. s ! i \<in> set (alt ! i)" by simp_all
  from alt have "0 < length alt" by (auto simp: date_pattern_def)
  moreover have "is_date_char ch" if "ch \<in> set (take n s)" for ch
  proof -
    from that obtain i where i: "i < n" "i < length s" "ch = s ! i"
      by (auto simp: in_set_conv_nth)
    with cls n have "ch \<in> set (alt ! i)" by simp
    with date_pattern_classes [OF alt] i n show ?thesis by auto
  qed
  ultimately show ?thesis using len n by simp
qed

lemma re_findall_date_chars:
  "cand \<in> set (re_findall s) \<Longrightarrow> cand \<noteq> [] \<and> (\<forall>ch \<in> set cand. is_date_char ch)"
proof (induction s rule: re_findall.induct)
  case 1
  then show ?case by simp
next
  case (2 c cs)
  show ?case
  proof (cases "first_match date_pattern (c # cs)")
    case None
    with 2 show ?thesis by simp
  next
    case (Some n)
    from first_match_date_pattern [OF Some] have n: "0 < n"
      and chars: "\<forall>ch \<in> set (take n (c # cs)). is_date_char ch" by simp_all
    from 2(3) Some consider "cand = take n (c # cs)" | "cand \<in> set (re_findall (drop (n - 1) cs))"
      by auto
    then show ?thesis
    proof cases
      case 1
      with n chars show ?thesis by auto
    next
      case 2
      with "2.IH"(2) [OF Some] show ?thesis by simp
    qed
  qed
qed

lemma replace_scan_keep:
  assumes "\<not> sublist old u" and "b = [] \<or> u = [] \<or> last u \<notin> set old"
  shows "replace_scan old new (u @ b) = u @ replace_scan old new b"
  using assms
proof (induction u)
  case Nil
  then show ?case by simp
next
  case (Cons c u)
  have np: "\<not> prefix old ((c # u) @ b)"
  proof
    assume "prefix old ((c # u) @ b)"
    then consider "prefix old (c # u)" | us where "old = (c # u) @ us" "prefix us b"
      using prefix_append [of old "c # u" b] by auto
    then show False
    proof cases
      case 1
      then have "sublist old (c # u)" by (rule prefix_imp_sublist)
      with Cons.prems(1) show False by simp
    next
      case 2
      show False
      proof (cases "us = []")
        case True
        with 2 have "old = c # u" by simp
        with Cons.prems(1) show False by simp
      next
        case False
        with 2 have "b \<noteq> []" by auto
        moreover from 2 have "last (c # u) \<in> set old" by auto
        ultimately show False using Cons.prems(2) by simp
      qed
    qed
  qed
  have "\<not> sublist old u" using Cons.prems(1) by (auto simp: sublist_Cons_right)
  moreover have "b = [] \<or> u = [] \<or> last u \<notin> set old" using Cons.prems(2) by auto
  ultimately have "replace_scan old new (u @ b) = u @ replace_scan old new b"
    by (rule Cons.IH)
  with np show ?case by simp
qed

lemma replace_scan_region:
  assumes "old \<noteq> []" and "\<forall>ch \<in> set old. is_date_char ch" and "\<not> sublist old w"
    and "a = [] \<or> (w \<noteq> [] \<and> \<not> is_date_char (hd w))"
    and "b = [] \<or> (w \<noteq> [] \<and> \<not> is_date_char (last w))"
  shows "replace_scan old new (a @ w @ b) = replace_scan old new a @ w @ replace_scan old new b"
proof -
  have keep: "replace_scan old new (u @ b) = u @ replace_scan old new b"
    if "\<not> sublist old u" "u = [] \<or> last u = last w" for u
  proof (rule replace_scan_keep [OF that(1)])
    show "b = [] \<or> u = [] \<or> last u \<notin> set old"
      using assms(2,5) that(2) by auto
  qed
  show ?thesis
  proof (cases "a = []")
    case True
    then show ?thesis using keep [of w] assms(3) by simp
  next
    case False
    with assms(4) obtain x w' where w: "w = x # w'" and x: "\<not> is_date_char x"
      by (cases w) auto
    from x assms(2) have xo: "x \<notin> set old" by auto
    have "\<not> sublist old w'" using assms(3) w by (auto simp: sublist_Cons_right)
    moreover have "w' = [] \<or> last w' = last w" using w by simp
    ultimately have "replace_scan old new (w' @ b) = w' @ replace_scan old new b" by (rule keep)
    then show ?thesis
      using replace_scan_frame_char [OF assms(1) xo, of new a "w' @ b"] w by simp
  qed
qed

lemma str_replace_region:
  assumes "old \<noteq> []" and "\<forall>ch \<in> set old. is_date_char ch" and "\<not> sublist old w"
    and "a = [] \<or> (w \<noteq> [] \<and> \<not> is_date_char (hd w))"
    and "b = [] \<or> (w \<noteq> [] \<and> \<not> is_date_char (last w))"
  shows "str_replace old new (a @ w @ b) = str_replace old new a @ w @ str_replace old new b"
  using assms by (simp add: str_replace_def replace_scan_region)

lemma str_replace_Nil: "old \<noteq> [] \<Longrightarrow> str_replace old new [] = []"
  by (simp add: str_replace_def)

lemma match_classes_prefix:
  "match_classes cls s \<Longrightarrow> match_classes cls (take (length cls) s @ q)"
  by (induction cls s rule: match_classes.induct) simp_all

lemma first_match_exists:
  "\<exists>alt \<in> set alts. match_classes alt s \<Longrightarrow> first_match alts s \<noteq> None"
  by (induction alts) auto

lemma re_findall_shape:
  "cand \<in> set (re_findall s) \<Longrightarrow>
     \<exists>s' n. first_match date_pattern s' = Some n \<and> cand = take n s'"
proof (induction s rule: re_findall.induct)
  case 1
  then show ?case by simp
next
  case (2 c cs)
  show ?case
  proof (cases "first_match date_pattern (c # cs)")
    case None
    with 2 show ?thesis by simp
  next
    case (Some n)
    from 2(3) Some consider "cand = take n (c # cs)" | "cand \<in> set (re_findall (drop (n - 1) cs))"
      by auto
    then show ?thesis
    proof cases
      case 1
      with Some show ?thesis by blast
    next
      case 2
      with "2.IH"(2) [OF Some] show ?thesis by simp
    qed
  qed
qed

lemma candidate_matches:
  assumes "cand \<in> set (re_findall s)"
  shows "first_match date_pattern (cand @ q) \<noteq> None"
proof -
  from re_findall_shape [OF assms] obtain s' n
    where fm: "first_match date_pattern s' = Some n" and c: "cand = take n s'" by blast
  from first_match_Some [OF fm] obtain alt where alt: "alt \<in> set date_pattern"
    and m: "match_classes alt s'" and n: "n = length alt" by blast
  from match_classes_prefix [OF m] have "match_classes alt (cand @ q)" by (simp add: c n)
  with alt show ?thesis by (intro first_match_exists) blast
qed

lemma first_match_Nil: "first_match date_pattern [] = None"
  by (simp add: date_pattern_def)

lemma re_findall_nonempty:
  "first_match date_pattern q \<noteq> None \<Longrightarrow> re_findall (p @ q) \<noteq> []"
proof (induction p)
  case Nil
  then obtain c cs where "q = c # cs" using first_match_Nil by (cases q) auto
  with Nil show ?case by (auto split: option.splits)
next
  case (Cons x p)
  then show ?case by (auto split: option.splits)
qed

lemma candidate_not_in_shapeless:
  assumes "cand \<in> set (re_findall s)" and "re_findall w = []"
  shows "\<not> sublist cand w"
proof
  assume "sublist cand w"
  then obtain p q where "w = p @ cand @ q" by (auto simp: sublist_def)
  have "first_match date_pattern (cand @ q) \<noteq> None"
    by (rule candidate_matches [OF assms(1)])
  then have "re_findall (p @ cand @ q) \<noteq> []" by (rule re_findall_nonempty)
  with \<open>w = p @ cand @ q\<close> assms(2) show False by simp
qed

lemma shift_loop_region:
  assumes "\<forall>cand \<in> set ds. cand \<noteq> [] \<and> (\<forall>ch \<in> set cand. is_date_char ch) \<and> \<not> sublist cand w"
    and "a = [] \<or> (w \<noteq> [] \<and> \<not> is_date_char (hd w))"
    and "b = [] \<or> (w \<noteq> [] \<and> \<not> is_date_char (last w))"
    and "shift_loop ds k f (a @ w @ b) lg = (Returns out, lg')"
  shows "\<exists>a' b'. out = a' @ w @ b' \<and> shift_loop ds k f a lg = (Returns a', lg')
           \<and> shift_loop ds k f b lg = (Returns b', lg')"
  using assms
proof (induction ds arbitrary: a b lg)
  case Nil
  then show ?case by simp
next
  case (Cons d ds)
  obtain r lg1 where sd: "shift_date d k f lg = (r, lg1)" by (cases "shift_date d k f lg")
  from Cons.prems(1) have d: "d \<noteq> []" "\<forall>ch \<in> set d. is_date_char ch" "\<not> sublist d w"
    and rest: "\<forall>cand \<in> set ds. cand \<noteq> [] \<and> (\<forall>ch \<in> set cand. is_date_char ch) \<and> \<not> sublist cand w"
    by simp_all
  show ?case
  proof (cases r)
    case (Returns sd')
    have a': "str_replace d sd' a = [] \<or> (w \<noteq> [] \<and> \<not> is_date_char (hd w))"
      using Cons.prems(2) str_replace_Nil [OF d(1)] by auto
    have b': "str_replace d sd' b = [] \<or> (w \<noteq> [] \<and> \<not> is_date_char (last w))"
      using Cons.prems(3) str_replace_Nil [OF d(1)] by auto
    from Cons.prems(4) sd Returns
    have "shift_loop ds k f (str_replace d sd' a @ w @ str_replace d sd' b) lg1 = (Returns out, lg')"
      by (simp add: str_replace_region [OF d Cons.prems(2,3)])
    from Cons.IH [OF rest a' b' this] sd Returns show ?thesis by simp
  next
    case (Raises e)
    with Cons.prems(4) sd show ?thesis by simp
  next
    case Unmodelled
    with Cons.prems(4) sd show ?thesis by simp
  qed
qed

text \<open>
  Claim C6, amended. Let the content be \<open>a @ w @ b\<close>, where the stretch \<open>w\<close> holds
  no date-shaped text, begins with a character other than a digit, \<^verbatim>\<open>-\<close> or
  \<^verbatim>\<open>/\<close> unless the content begins with it, and ends with such a character unless
  the content ends with it. If the transformer returns, the output is \<open>a' @ w @ b'\<close>:
  \<open>w\<close> is untouched, and \<open>a'\<close> and \<open>b'\<close> are what the same replacements make of
  \<open>a\<close> and of \<open>b\<close>. Only digits, hyphens and slashes that touch a candidate are
  left without this guarantee.
\<close>

theorem transform_region:
  assumes "re_findall w = []"
    and "a = [] \<or> (w \<noteq> [] \<and> \<not> is_date_char (hd w))"
    and "b = [] \<or> (w \<noteq> [] \<and> \<not> is_date_char (last w))"
    and "transform (a @ w @ b) k f lg = (Returns out, lg')"
  shows "\<exists>a' b'. out = a' @ w @ b'
           \<and> shift_loop (re_findall (a @ w @ b)) k f a lg = (Returns a', lg')
           \<and> shift_loop (re_findall (a @ w @ b)) k f b lg = (Returns b', lg')"
proof -
  have "\<forall>cand \<in> set (re_findall (a @ w @ b)).
          cand \<noteq> [] \<and> (\<forall>ch \<in> set cand. is_date_char ch) \<and> \<not> sublist cand w"
    using re_findall_date_chars candidate_not_in_shapeless [OF _ assms(1)] by blast
  from shift_loop_region [OF this assms(2,3)] assms(4) show ?thesis
    by (simp add: transform_def)
qed


text \<open>Witness for the amended C6: the text between two dates, with its own digits and
  hyphens, stays as it is.\<close>

theorem transform_region_witness:
  "re_findall '' and follow-up, tel 555-0199, room 101 '' = []
   \<and> \<not> is_date_char (hd '' and follow-up, tel 555-0199, room 101 '')
   \<and> \<not> is_date_char (last '' and follow-up, tel 555-0199, room 101 '')
   \<and> transform (''2023-01-15'' @ '' and follow-up, tel 555-0199, room 101 '' @ ''2023-01-20'')
        10 ''%Y-%m-%d'' []
      = (Returns ''2023-01-25 and follow-up, tel 555-0199, room 101 2023-01-30'', [])
   \<and> (\<exists>a' b'. ''2023-01-25 and follow-up, tel 555-0199, room 101 2023-01-30''
                 = a' @ '' and follow-up, tel 555-0199, room 101 '' @ b'
        \<and> shift_loop (re_findall (''2023-01-15'' @ '' and follow-up, tel 555-0199, room 101 ''
                                    @ ''2023-01-20'')) 10 ''%Y-%m-%d'' ''2023-01-15'' []
            = (Returns a', [])
        \<and> shift_loop (re_findall (''2023-01-15'' @ '' and follow-up, tel 555-0199, room 101 ''
                                    @ ''2023-01-20'')) 10 ''%Y-%m-%d'' ''2023-01-20'' []
            = (Returns b', []))"
proof -
  let ?w = "'' and follow-up, tel 555-0199, room 101 ''"
  have 1: "re_findall ?w = []" by code_simp
  have 2: "\<not> is_date_char (hd ?w)" by code_simp
  have 3: "\<not> is_date_char (last ?w)" by code_simp
  have 4: "transform (''2023-01-15'' @ ?w @ ''2023-01-20'') 10 ''%Y-%m-%d'' []
      = (Returns ''2023-01-25 and follow-up, tel 555-0199, room 101 2023-01-30'', [])"
    by code_simp
  have w: "?w \<noteq> []" by simp
  from 2 w have h2: "''2023-01-15'' = [] \<or> (?w \<noteq> [] \<and> \<not> is_date_char (hd ?w))" by blast
  from 3 w have h3: "''2023-01-20'' = [] \<or> (?w \<noteq> [] \<and> \<not> is_date_char (last ?w))" by blast
  from transform_region [OF 1 h2 h3 4] 1 2 3 4 show ?thesis by blast
qed

text \<open>
  Counterexample to C6 as stated. The scanner finds \<^verbatim>\<open>01-01-20\<close> and
  \<^verbatim>\<open>20-01-01\<close> in \<^verbatim>\<open>01-01-20-01-01 and 20-01-01\<close>; the region
  \<^verbatim>\<open>-01-01 and \<close> between them belongs to no candidate. With the format
  \<^verbatim>\<open>%d-%m-%y\<close> and offset 31 the output is
  \<^verbatim>\<open>01-02-20-02-01 and 20-02-01\<close>: the region has become
  \<^verbatim>\<open>-02-01 and \<close>, because the text of the second candidate also occurs
  across the end of the first.
\<close>

theorem frame_counterexample:
  "re_findall ''01-01-20-01-01 and 20-01-01'' = [''01-01-20'', ''20-01-01'']
   \<and> transform ''01-01-20-01-01 and 20-01-01'' 31 ''%d-%m-%y'' []
       = (Returns ''01-02-20-02-01 and 20-02-01'', [])"
  by code_simp

section \<open>The transformer and the fold of the specification\<close>

lemma in_digits: "c \<in> set digits \<longleftrightarrow> is_digit c"
  by (simp add: digits_def is_digit_def)

lemma in_separators: "c \<in> set ''/-'' \<longleftrightarrow> is_separator c"
  by (auto simp: is_separator_def)

lemma in_hyphen: "c \<in> set ''-'' \<longleftrightarrow> c = CHR ''-''"
  by simp

lemma match_shape1:
  "match_classes [digits, digits, digits, digits, ''-'', digits, digits, ''-'', digits, digits] s
     = shape1 s"
  by (induction s rule: shape1.induct)
     (simp_all add: in_digits in_hyphen del: set_simps)

lemma match_shape2:
  "match_classes [digits, digits, ''/-'', digits, digits, ''/-'', digits, digits, digits, digits] s
     = shape2 s"
  by (induction s rule: shape2.induct)
     (simp_all add: in_digits in_separators del: set_simps)

lemma match_shape3:
  "match_classes [digits, digits, ''/-'', digits, digits, ''/-'', digits, digits] s = shape3 s"
  by (induction s rule: shape3.induct)
     (simp_all add: in_digits in_separators del: set_simps)

lemma first_match_shape_at: "first_match date_pattern s = shape_at s"
  by (simp add: date_pattern_def match_shape1 match_shape2 match_shape3 shape_at_def
      del: match_classes.simps)

lemma re_findall_scan_candidates: "re_findall s = scan_candidates s"
  by (induction s rule: re_findall.induct)
     (simp_all add: first_match_shape_at split: option.splits)


lemma prefix_occurs_at: "prefix old s \<longleftrightarrow> occurs_at old s 0"
proof
  assume "prefix old s"
  then obtain zs where "s = old @ zs" by (auto simp: prefix_def)
  then show "occurs_at old s 0" by (simp add: occurs_at_def)
next
  assume "occurs_at old s 0"
  then have "take (length old) s = old" by (simp add: occurs_at_def)
  then have "s = old @ drop (length old) s" by (metis append_take_drop_id)
  then show "prefix old s" by (metis prefixI)
qed

lemma occurs_at_Cons: "occurs_at old (c # s) (Suc j) \<longleftrightarrow> occurs_at old s j"
  by (simp add: occurs_at_def)

lemma replace_scan_first:
  assumes "old \<noteq> []" and "\<forall>j < length u. \<not> occurs_at old (u @ old @ rest) j"
  shows "replace_scan old new (u @ old @ rest) = u @ new @ replace_scan old new rest"
  using assms(2)
proof (induction u)
  case Nil
  from assms(1) obtain x xs where old: "old = x # xs" by (cases old) auto
  then show ?case by simp
next
  case (Cons c u)
  from Cons.prems have "\<not> occurs_at old ((c # u) @ old @ rest) 0" by auto
  then have np: "\<not> prefix old (c # (u @ old @ rest))" by (simp add: prefix_occurs_at)
  have "\<forall>j < length u. \<not> occurs_at old (u @ old @ rest) j"
  proof (intro allI impI)
    fix j assume "j < length u"
    then have "Suc j < length (c # u)" by simp
    with Cons.prems have "\<not> occurs_at old ((c # u) @ old @ rest) (Suc j)" by blast
    then show "\<not> occurs_at old (u @ old @ rest) j" by (simp add: occurs_at_Cons)
  qed
  from Cons.IH [OF this] np show ?case by simp
qed

lemma sublist_occurs_at:
  assumes "sublist old s"
  shows "\<exists>i \<le> length s. occurs_at old s i"
proof -
  from assms obtain p q where "s = p @ old @ q" by (auto simp: sublist_def)
  then have "occurs_at old s (length p)" "length p \<le> length s" by (simp_all add: occurs_at_def)
  then show ?thesis by blast
qed

lemma replace_scan_none:
  assumes "first_occurrence old s = None"
  shows "replace_scan old new s = s"
proof -
  from assms have "\<forall>i \<in> set [0 ..< Suc (length s)]. \<not> occurs_at old s i"
    unfolding first_occurrence_def find_None_iff by blast
  then have no: "\<forall>i \<le> length s. \<not> occurs_at old s i"
    by (simp add: less_Suc_eq_le del: upt_Suc)
  with sublist_occurs_at have "\<not> sublist old s" by blast
  from replace_scan_keep [OF this, of "[]" new] show ?thesis by simp
qed

lemma first_occurrence_Some:
  assumes "first_occurrence old s = Some i"
  shows "i \<le> length s" and "occurs_at old s i" and "\<forall>j < i. \<not> occurs_at old s j"
proof -
  from assms obtain k where k: "k < length [0 ..< Suc (length s)]"
    "occurs_at old s ([0 ..< Suc (length s)] ! k)" "i = [0 ..< Suc (length s)] ! k"
    "\<forall>j < k. \<not> occurs_at old s ([0 ..< Suc (length s)] ! j)"
    unfolding first_occurrence_def find_Some_iff by blast
  from k(1) have kl: "k < Suc (length s)" by simp
  then have ik: "i = k" using k(3) by (simp add: nth_upt del: upt_Suc)
  from kl ik show "i \<le> length s" by simp
  from k(2) k(3) show "occurs_at old s i" by simp
  show "\<forall>j < i. \<not> occurs_at old s j"
  proof (intro allI impI)
    fix j assume "j < i"
    with ik have jk: "j < k" by simp
    with kl have "[0 ..< Suc (length s)] ! j = j" by (simp add: nth_upt del: upt_Suc)
    with k(4) jk show "\<not> occurs_at old s j" by metis
  qed
qed

lemma replace_scan_replace_all:
  "old \<noteq> [] \<Longrightarrow> replace_scan old new s = replace_all old new s"
proof (induction old new s rule: replace_all.induct)
  case (1 old new s)
  show ?case
  proof (cases "first_occurrence old s")
    case None
    with "1.prems" replace_scan_none [OF None] show ?thesis
      by (simp add: replace_all.simps [of old new s])
  next
    case (Some i)
    note fo = first_occurrence_Some [OF Some]
    let ?u = "take i s" and ?rest = "drop (i + length old) s"
    from fo(2) have "take (length old) (drop i s) = old" by (simp add: occurs_at_def)
    then have "drop i s = old @ drop (length old) (drop i s)" by (metis append_take_drop_id)
    then have split: "s = ?u @ old @ ?rest"
      by (metis append_take_drop_id drop_drop add.commute)
    have lu: "length ?u = i" using fo(1) by simp
    have "\<forall>j < length ?u. \<not> occurs_at old (?u @ old @ ?rest) j"
      using fo(3) lu split by simp
    from replace_scan_first [OF "1.prems" this]
    have "replace_scan old new s = ?u @ new @ replace_scan old new ?rest"
      using split by simp
    also have "replace_scan old new ?rest = replace_all old new ?rest"
      using "1.IH" [OF "1.prems" Some] "1.prems" by simp
    finally show ?thesis using Some "1.prems"
      by (simp add: replace_all.simps [of old new s])
  qed
qed

lemma str_replace_replace_all:
  "old \<noteq> [] \<Longrightarrow> str_replace old new s = replace_all old new s"
  by (simp add: str_replace_def replace_scan_replace_all)

lemma transform_step_Raises: "transform_step k f c (Raises e, lg) = (Raises e, lg)"
  by (simp add: transform_step_def)

lemma transform_step_Unmodelled: "transform_step k f c (Unmodelled, lg) = (Unmodelled, lg)"
  by (simp add: transform_step_def)

lemma transform_step_Returns:
  "transform_step k f c (Returns cur, lg) =
     (case shift_date c k f lg of
        (Returns shifted, lg') \<Rightarrow> (Returns (replace_all c shifted cur), lg')
      | (Raises e, lg') \<Rightarrow> (Raises e, lg')
      | (Unmodelled, lg') \<Rightarrow> (Unmodelled, lg'))"
  by (simp add: transform_step_def)

lemma fold_transform_step_Raises: "fold (transform_step k f) ds (Raises e, lg) = (Raises e, lg)"
  by (induction ds) (simp_all add: transform_step_Raises)

lemma fold_transform_step_Unmodelled: "fold (transform_step k f) ds (Unmodelled, lg) = (Unmodelled, lg)"
  by (induction ds) (simp_all add: transform_step_Unmodelled)

lemma shift_loop_spec_fold:
  assumes "\<forall>d \<in> set ds. d \<noteq> []"
  shows "shift_loop ds k f sc lg = fold (transform_step k f) ds (Returns sc, lg)"
  using assms
proof (induction ds arbitrary: sc lg)
  case Nil
  then show ?case by simp
next
  case (Cons d ds)
  obtain r lg' where sd: "shift_date d k f lg = (r, lg')" by (cases "shift_date d k f lg")
  from Cons.prems have d: "d \<noteq> []" and rest: "\<forall>d \<in> set ds. d \<noteq> []" by simp_all
  show ?case
  proof (cases r)
    case (Returns sd')
    with sd Cons.IH [OF rest] show ?thesis
      by (simp add: transform_step_Returns str_replace_replace_all [OF d])
  next
    case (Raises e)
    with sd show ?thesis by (simp add: transform_step_Returns fold_transform_step_Raises)
  next
    case Unmodelled
    with sd show ?thesis by (simp add: transform_step_Returns fold_transform_step_Unmodelled)
  qed
qed

text \<open>
  Claim C3. The content transformer of \<^verbatim>\<open>process_file\<close> (\<^verbatim>\<open>re.findall\<close>,
  then the loop with \<^verbatim>\<open>str.replace\<close>) equals the fold of the specification:
  scan the content for candidates in order, then, for each candidate in scan order,
  duplicates included, compute its shifted form and replace every occurrence of the
  candidate's text in the whole current content. The scanner and the global replacement
  on the right-hand side are the ones defined from the specification's words. The log is
  the same too.
\<close>

theorem transform_is_fold:
  "transform content k f lg = transform_spec content k f lg"
proof -
  have "\<forall>d \<in> set (re_findall content). d \<noteq> []"
    using re_findall_date_chars by blast
  then show ?thesis
    by (simp add: transform_def transform_spec_def shift_loop_spec_fold
        re_findall_scan_candidates [symmetric])
qed

end
